theory Spec2Isabelle
  imports Main
begin

section \<open>Characters and Python string primitives\<close>

text \<open>
  Python strings are sequences of code points. The model uses \<^typ>\<open>string\<close>, whose
  characters are read as the code points 0..255 (the Latin-1 range of Python's \<open>str\<close>).
  \<open>str.isspace\<close>, \<open>str.strip\<close>, \<open>str.split\<close> and the regular expression class
  \<open>\s\<close> all use the same whitespace test; in this range it holds for
  0x09..0x0D, 0x1C..0x20, 0x85 and 0xA0.
\<close>

definition isspace :: "char \<Rightarrow> bool" where
  "isspace c = (let n = (of_char c :: nat)
     in (9 \<le> n \<and> n \<le> 13) \<or> (28 \<le> n \<and> n \<le> 32) \<or> n = 133 \<or> n = 160)"

text \<open>The class \<open>\d\<close> of a \<open>str\<close> pattern: in this range the ten ASCII digits.\<close>

definition isdigit :: "char \<Rightarrow> bool" where
  "isdigit c = (let n = (of_char c :: nat) in 48 \<le> n \<and> n \<le> 57)"

text \<open>
  \<open>str.lower\<close> on one code point: A..Z and the Latin-1 capitals 0xC0..0xDE
  (without the multiplication sign 0xD7) move up by 32.
\<close>

definition lower_char :: "char \<Rightarrow> char" where
  "lower_char c = (let n = (of_char c :: nat)
     in if (65 \<le> n \<and> n \<le> 90) \<or> (192 \<le> n \<and> n \<le> 222 \<and> n \<noteq> 215)
        then char_of (n + 32) else c)"

definition lower :: "string \<Rightarrow> string" where
  "lower s = map lower_char s"

definition lstrip :: "string \<Rightarrow> string" where
  "lstrip s = dropWhile isspace s"

definition rstrip :: "string \<Rightarrow> string" where
  "rstrip s = rev (dropWhile isspace (rev s))"

text \<open>\<open>s.strip()\<close>\<close>

definition strip :: "string \<Rightarrow> string" where
  "strip s = rstrip (lstrip s)"

text \<open>\<open>s.rstrip(chars)\<close>\<close>

definition rstrip_chars :: "string \<Rightarrow> string \<Rightarrow> string" where
  "rstrip_chars cs s = rev (dropWhile (\<lambda>c. c \<in> set cs) (rev s))"

text \<open>\<open>s.startswith(p)\<close>\<close>

definition startswith :: "string \<Rightarrow> string \<Rightarrow> bool" where
  "startswith s p = (take (length p) s = p)"

section \<open>Identifier normalizer: \<open>clean_doi\<close>\<close>

text \<open>
  \<^verbatim>\<open>
  def clean_doi(self, doi):
      doi = re.sub(r'^https?://(dx\.)?doi\.org/', '', doi)
      doi = re.sub(r'^doi:', '', doi, flags=re.IGNORECASE)
      doi = doi.rstrip('.,;:')
      return doi.strip()
  \<close>
  Both patterns are anchored with \<open>^\<close> and compiled without MULTILINE, so each
  substitution removes at most one match, at position 0. The first pattern has no
  flag and denotes exactly four literal prefixes, none a prefix of another.
\<close>

definition resolver_prefixes :: "string list" where
  "resolver_prefixes =
     [''http://doi.org/'', ''http://dx.doi.org/'', ''https://doi.org/'', ''https://dx.doi.org/'']"

definition sub_resolver :: "string \<Rightarrow> string" where
  "sub_resolver s = (case find (startswith s) resolver_prefixes of
       Some p \<Rightarrow> drop (length p) s
     | None \<Rightarrow> s)"

text \<open>\<open>^doi:\<close> with IGNORECASE: the first four characters, letters in either case.\<close>

definition has_doi_label :: "string \<Rightarrow> bool" where
  "has_doi_label s = (lower (take 4 s) = ''doi:'')"

definition sub_doi_label :: "string \<Rightarrow> string" where
  "sub_doi_label s = (if has_doi_label s then drop 4 s else s)"

definition clean_doi :: "string \<Rightarrow> string" where
  "clean_doi doi = strip (rstrip_chars ''.,;:'' (sub_doi_label (sub_resolver doi)))"

text \<open>
  The shape of a string that one more pass of \<open>clean_doi\<close> leaves alone: no resolver
  prefix, no \<open>doi:\<close> label, no trailing punctuation.
\<close>

definition doi_normal :: "string \<Rightarrow> bool" where
  "doi_normal y = (find (startswith y) resolver_prefixes = None \<and> \<not> has_doi_label y
     \<and> (y = [] \<or> last y \<notin> set ''.,;:''))"

section \<open>Ledger parser: \<open>parse_abstract_updates_file\<close>\<close>

abbreviation newline :: char where
  "newline \<equiv> CHR 0x0A"

abbreviation carriage_return :: char where
  "carriage_return \<equiv> CHR 0x0D"

text \<open>
  \<open>for line in f\<close> on a file opened in text mode with the default \<open>newline=None\<close>:
  the terminators \<open>\n\<close>, \<open>\r\<close> and \<open>\r\n\<close> all end a line and are handed over as
  \<open>\n\<close>; a last line without terminator is handed over as it is.
\<close>

fun iter_lines :: "string \<Rightarrow> string list" where
  "iter_lines [] = []"
| "iter_lines (c # cs) =
     (if c = carriage_return then
        (case cs of
           d # ds \<Rightarrow> if d = newline then [newline] # iter_lines ds else [newline] # iter_lines cs
         | [] \<Rightarrow> [[newline]])
      else if c = newline then [newline] # iter_lines cs
      else (case iter_lines cs of
              [] \<Rightarrow> [[c]]
            | l # ls \<Rightarrow> (c # l) # ls))"

text \<open>
  The log prefix
  \<^verbatim>\<open>re.match(r'^\d{4}-\d{2}-\d{2} \d{2}:\d{2}:\d{2},\d{3} - INFO - (.*)$', line)\<close>.
  Its fixed part has 33 characters; in the template a \<open>d\<close> stands for \<open>\d\<close> and every
  other character for itself (the literal part of the pattern has no \<open>d\<close>).
\<close>

definition log_prefix_template :: string where
  "log_prefix_template = ''dddd-dd-dd dd:dd:dd,ddd - INFO - ''"

definition fits :: "char \<Rightarrow> char \<Rightarrow> bool" where
  "fits t c = (if t = CHR ''d'' then isdigit c else c = t)"

definition is_log_prefix :: "string \<Rightarrow> bool" where
  "is_log_prefix p = list_all2 fits log_prefix_template p"

text \<open>
  \<open>(.*)$\<close> and \<open>(.+)$\<close> without flags: \<open>.\<close> is any character but \<open>\n\<close>, and \<open>$\<close>
  holds at the end of the string and in front of a newline that ends the string. The
  group is the run of characters up to the first newline.
\<close>

definition dot_star_eol :: "string \<Rightarrow> string option" where
  "dot_star_eol r =
     (let g = takeWhile (\<lambda>c. c \<noteq> newline) r; t = dropWhile (\<lambda>c. c \<noteq> newline) r
      in if t = [] \<or> t = [newline] then Some g else None)"

definition dot_plus_eol :: "string \<Rightarrow> string option" where
  "dot_plus_eol r =
     (case dot_star_eol r of Some g \<Rightarrow> if g \<noteq> [] then Some g else None | None \<Rightarrow> None)"

definition strip_log_prefix :: "string \<Rightarrow> string" where
  "strip_log_prefix line =
     (if is_log_prefix (take 33 line) then
        (case dot_star_eol (drop 33 line) of Some g \<Rightarrow> g | None \<Rightarrow> line)
      else line)"

text \<open>
  \<^verbatim>\<open>re.search(r'Processing \[\d+/\d+\] (.+)$', line)\<close>: the match at the leftmost
  position where the pattern fits. A run \<open>\d+\<close> must be followed by a character that is
  no digit, so the greedy run is the only candidate.
\<close>

definition match_processing_at :: "string \<Rightarrow> string option" where
  "match_processing_at s =
     (if startswith s ''Processing ['' then
        (let r1 = drop 12 s; d1 = takeWhile isdigit r1; r2 = dropWhile isdigit r1
         in if d1 \<noteq> [] \<and> startswith r2 ''/'' then
              (let r3 = drop 1 r2; d2 = takeWhile isdigit r3; r4 = dropWhile isdigit r3
               in if d2 \<noteq> [] \<and> startswith r4 ''] '' then dot_plus_eol (drop 2 r4) else None)
            else None)
      else None)"

fun search_processing :: "string \<Rightarrow> string option" where
  "search_processing [] = match_processing_at []"
| "search_processing (c # cs) =
     (case match_processing_at (c # cs) of
        Some g \<Rightarrow> Some g
      | None \<Rightarrow> search_processing cs)"

text \<open>
  An item of the parser is a Python dict with the keys \<open>citation\<close>, \<open>title\<close>, \<open>doi\<close> and
  \<open>abstract\<close>, each present or not.
\<close>

record entry =
  citation :: "string option"
  title :: "string option"
  doi :: "string option"
  abstract :: "string option"

definition empty_entry :: entry where
  "empty_entry = \<lparr>citation = None, title = None, doi = None, abstract = None\<rparr>"

definition new_entry :: "string \<Rightarrow> entry" where
  "new_entry c = \<lparr>citation = Some c, title = None, doi = None, abstract = None\<rparr>"

text \<open>\<open>current_item and 'doi' in current_item and 'abstract' in current_item\<close>\<close>

definition qualifies :: "entry \<Rightarrow> bool" where
  "qualifies e = (e \<noteq> empty_entry \<and> doi e \<noteq> None \<and> abstract e \<noteq> None)"

text \<open>
  The tests of the \<open>if\<close>/\<open>elif\<close> chain on a line, in the order of the source, with what
  each branch extracts.
\<close>

datatype line_kind =
    L_skip
  | is_processing: L_processing "string option"
  | L_title string
  | is_doi: L_doi string
  | is_abstract: L_abstract string
  | L_other

definition classify :: "string \<Rightarrow> line_kind" where
  "classify line =
     (if line = [] \<or> startswith line ''='' \<or> startswith line ''-'' then L_skip
      else if startswith line ''Processing ['' then L_processing (search_processing line)
      else if startswith (strip line) ''Title:'' then L_title (strip (drop 6 (strip line)))
      else if startswith (strip line) ''DOI:'' then L_doi (strip (drop 4 (strip line)))
      else if startswith (strip line) ''Abstract:'' then L_abstract (strip (drop 9 (strip line)))
      else L_other)"

text \<open>\<open>line = line.rstrip('\n')\<close>, then the log prefix is taken off.\<close>

definition clean_line :: "string \<Rightarrow> string" where
  "clean_line line = strip_log_prefix (rstrip_chars [newline] line)"

text \<open>
  \<open>updates\<close> is a list of references to dicts, and \<open>current_item\<close> is a reference that
  \<open>updates.append(current_item)\<close> shares with the list: a later
  \<open>current_item['title'] = ...\<close> is seen through both. The dicts live in a store
  (address = index), the list and the variable hold addresses.
\<close>

record parse_state =
  store :: "entry list"
  updates :: "nat list"
  current_item :: nat

definition init_state :: parse_state where
  "init_state = \<lparr>store = [empty_entry], updates = [], current_item = 0\<rparr>"

definition current :: "parse_state \<Rightarrow> entry" where
  "current st = store st ! current_item st"

definition set_current :: "(entry \<Rightarrow> entry) \<Rightarrow> parse_state \<Rightarrow> parse_state" where
  "set_current f st = st\<lparr>store := (store st)[current_item st := f (current st)]\<rparr>"

definition append_current :: "parse_state \<Rightarrow> parse_state" where
  "append_current st =
     (if qualifies (current st) then st\<lparr>updates := updates st @ [current_item st]\<rparr> else st)"

definition parse_line :: "parse_state \<Rightarrow> string \<Rightarrow> parse_state" where
  "parse_line st line =
     (case classify (clean_line line) of
        L_skip \<Rightarrow> st
      | L_processing m \<Rightarrow>
          (let st1 = append_current st
           in case m of
                Some c \<Rightarrow> st1\<lparr>store := store st1 @ [new_entry c], current_item := length (store st1)\<rparr>
              | None \<Rightarrow> st1)
      | L_title t \<Rightarrow> set_current (\<lambda>e. e\<lparr>title := Some t\<rparr>) st
      | L_doi d \<Rightarrow> set_current (\<lambda>e. e\<lparr>doi := Some d\<rparr>) st
      | L_abstract a \<Rightarrow> set_current (\<lambda>e. e\<lparr>abstract := Some a\<rparr>) st
      | L_other \<Rightarrow> st)"

text \<open>The list \<open>updates\<close> after the loop and the last \<open>append\<close>, read through the store.\<close>

definition finish :: "parse_state \<Rightarrow> entry list" where
  "finish st = (let st1 = append_current st in map (\<lambda>a. store st1 ! a) (updates st1))"

definition parse_lines :: "string list \<Rightarrow> entry list" where
  "parse_lines ls = finish (foldl parse_line init_state ls)"

text \<open>
  The file: absent, present but failing to open or decode (any exception ends in
  \<open>return None\<close>), or present with its decoded text.
\<close>

datatype ledger_file = Missing | Unreadable | Readable string

definition parse_abstract_updates_file :: "ledger_file \<Rightarrow> entry list option" where
  "parse_abstract_updates_file f =
     (case f of
        Missing \<Rightarrow> None
      | Unreadable \<Rightarrow> None
      | Readable txt \<Rightarrow>
          (let us = parse_lines (iter_lines txt)
           in if us \<noteq> [] then Some us else None))"

text \<open>
  The branch \<open>run\<close> takes after \<open>updates_from_file = self.parse_abstract_updates_file()\<close>:
  \<open>if updates_from_file:\<close> leads to \<open>process_from_updates_file\<close> and returns, anything
  else goes on to \<open>get_items_missing_abstracts\<close> and the OpenAlex queries.
\<close>

datatype run_mode = Replay "entry list" | Discovery

definition run_mode :: "ledger_file \<Rightarrow> run_mode" where
  "run_mode f =
     (case parse_abstract_updates_file f of
        Some us \<Rightarrow> if us \<noteq> [] then Replay us else Discovery
      | None \<Rightarrow> Discovery)"

section \<open>Ledger lines as the code logs them\<close>

text \<open>\<open>f"{i}"\<close> for a non-negative integer: its decimal digits.\<close>

function str_nat :: "nat \<Rightarrow> string" where
  "str_nat n = (if n < 10 then [char_of (48 + n)]
                else str_nat (n div 10) @ [char_of (48 + n mod 10)])"
  by pat_completeness auto
termination
  by (relation "measure id") auto

declare str_nat.simps [simp del]

text \<open>The values a ledger entry is written from.\<close>

record ledger_entry =
  le_citation :: string
  le_title :: string
  le_doi :: string
  le_abstract :: string

text \<open>
  The messages for one item, from \<open>run\<close> and \<open>process_from_updates_file\<close>:
  \<^verbatim>\<open>
  self.log(f"Processing [{i}/{len(abstract_items)}] {citation}")
  self.log(f"  Title: {item['title']}")
  self.log(f"  DOI: {item['doi']}")
  \<close>
  and from \<open>update_zotero_abstract\<close> under \<open>dry_run\<close>:
  \<^verbatim>\<open>
  self.log(f"  [DRY RUN] Would update abstract for {citation} ({len(abstract)} chars)")
  self.log(f"  Abstract: {abstract}")
  \<close>
\<close>

definition processing_line :: "nat \<Rightarrow> nat \<Rightarrow> string \<Rightarrow> string" where
  "processing_line i n c = ''Processing ['' @ str_nat i @ ''/'' @ str_nat n @ ''] '' @ c"

definition title_line :: "string \<Rightarrow> string" where
  "title_line t = ''  Title: '' @ t"

definition doi_line :: "string \<Rightarrow> string" where
  "doi_line d = ''  DOI: '' @ d"

definition dry_run_line :: "string \<Rightarrow> string \<Rightarrow> string" where
  "dry_run_line c a =
     ''  [DRY RUN] Would update abstract for '' @ c @ '' ('' @ str_nat (length a) @ '' chars)''"

definition abstract_line :: "string \<Rightarrow> string" where
  "abstract_line a = ''  Abstract: '' @ a"

text \<open>
  One entry: the four lines of the ledger format, and with \<open>verbose\<close> the five messages of
  a dry run.
\<close>

definition write_entry :: "bool \<Rightarrow> nat \<Rightarrow> nat \<Rightarrow> ledger_entry \<Rightarrow> string list" where
  "write_entry verbose i n e =
     [processing_line i n (le_citation e), title_line (le_title e), doi_line (le_doi e)]
     @ (if verbose then [dry_run_line (le_citation e) (le_abstract e)] else [])
     @ [abstract_line (le_abstract e)]"

text \<open>\<open>for i, item in enumerate(items, 1)\<close>\<close>

fun write_entries :: "bool \<Rightarrow> nat \<Rightarrow> nat \<Rightarrow> ledger_entry list \<Rightarrow> string list" where
  "write_entries verbose i n [] = []"
| "write_entries verbose i n (e # es) = write_entry verbose i n e @ write_entries verbose (Suc i) n es"

text \<open>The text of the file: every message on a line of its own.\<close>

definition ledger_text :: "bool \<Rightarrow> ledger_entry list \<Rightarrow> string" where
  "ledger_text verbose es =
     concat (map (\<lambda>m. m @ [newline]) (write_entries verbose 1 (length es) es))"

text \<open>The dict the parser builds for an entry with all four keys.\<close>

definition as_entry :: "ledger_entry \<Rightarrow> entry" where
  "as_entry e = \<lparr>citation = Some (le_citation e), title = Some (le_title e),
     doi = Some (le_doi e), abstract = Some (le_abstract e)\<rparr>"

text \<open>What \<open>run\<close> gets to work on: the list, or nothing.\<close>

definition parsed_entries :: "ledger_file \<Rightarrow> entry list" where
  "parsed_entries f = (case parse_abstract_updates_file f of Some us \<Rightarrow> us | None \<Rightarrow> [])"

definition one_line :: "string \<Rightarrow> bool" where
  "one_line s = (newline \<notin> set s \<and> carriage_return \<notin> set s)"

text \<open>
  The entries that the ledger format carries unchanged: a citation of at least one
  character, no line break in any field, and title, identifier and abstract without
  leading or trailing whitespace (the parser applies \<open>strip()\<close> to these three).
\<close>

definition carried :: "ledger_entry \<Rightarrow> bool" where
  "carried e =
     (le_citation e \<noteq> [] \<and> one_line (le_citation e) \<and> one_line (le_title e)
      \<and> one_line (le_doi e) \<and> one_line (le_abstract e)
      \<and> strip (le_title e) = le_title e \<and> strip (le_doi e) = le_doi e
      \<and> strip (le_abstract e) = le_abstract e)"

section \<open>The parse state without addresses\<close>

text \<open>
  A view of \<^typ>\<open>parse_state\<close> for the proofs: the dicts of \<open>updates\<close> that are no longer
  \<open>current_item\<close>, how often \<open>current_item\<close> itself is already in \<open>updates\<close>, and the dict
  of \<open>current_item\<close>.
\<close>

type_synonym pview = "entry list \<times> nat \<times> entry"

fun v_step :: "pview \<Rightarrow> line_kind \<Rightarrow> pview" where
  "v_step (ds, k, e) L_skip = (ds, k, e)"
| "v_step (ds, k, e) (L_processing m) =
     (let k' = (if qualifies e then Suc k else k)
      in case m of Some c \<Rightarrow> (ds @ replicate k' e, 0, new_entry c) | None \<Rightarrow> (ds, k', e))"
| "v_step (ds, k, e) (L_title t) = (ds, k, e\<lparr>title := Some t\<rparr>)"
| "v_step (ds, k, e) (L_doi d) = (ds, k, e\<lparr>doi := Some d\<rparr>)"
| "v_step (ds, k, e) (L_abstract a) = (ds, k, e\<lparr>abstract := Some a\<rparr>)"
| "v_step (ds, k, e) L_other = (ds, k, e)"

fun v_finish :: "pview \<Rightarrow> entry list" where
  "v_finish (ds, k, e) = ds @ replicate (if qualifies e then Suc k else k) e"

definition v_init :: pview where
  "v_init = ([], 0, empty_entry)"

definition kinds :: "string list \<Rightarrow> line_kind list" where
  "kinds ls = map (\<lambda>l. classify (clean_line l)) ls"

definition rep :: "parse_state \<Rightarrow> pview \<Rightarrow> bool" where
  "rep st v = (case v of (ds, k, e) \<Rightarrow>
     current_item st < length (store st) \<and> current st = e
     \<and> (\<exists>old. updates st = old @ replicate k (current_item st)
           \<and> current_item st \<notin> set old
           \<and> (\<forall>a \<in> set old. a < length (store st))
           \<and> map (\<lambda>a. store st ! a) old = ds))"

text \<open>What the parser makes of the lines of one written entry.\<close>

definition entry_kinds :: "bool \<Rightarrow> ledger_entry \<Rightarrow> line_kind list" where
  "entry_kinds verbose e =
     [L_processing (Some (le_citation e)), L_title (le_title e), L_doi (le_doi e)]
     @ (if verbose then [L_other] else []) @ [L_abstract (le_abstract e)]"

text \<open>Two entries with punctuation in every field, and one whose title ends in a space.\<close>

definition entry_smith :: ledger_entry where
  "entry_smith = \<lparr>le_citation = ''Smith & Jones 2020'', le_title = ''Title: a study (part 1); notes'',
     le_doi = ''10.1234/ex.5-6'', le_abstract = ''We study: this, that; and more. Done!''\<rparr>"

definition entry_lee :: ledger_entry where
  "entry_lee = \<lparr>le_citation = ''Lee et al. n.d.'', le_title = ''= - DOI: Abstract: Processing [1/1] x'',
     le_doi = ''10.5/y'', le_abstract = []\<rparr>"

definition entry_trailing_space :: ledger_entry where
  "entry_trailing_space = \<lparr>le_citation = ''Smith 2020'', le_title = ''A title '',
     le_doi = ''10.1/x'', le_abstract = ''Text.''\<rparr>"

section \<open>Notions for the properties of the parser\<close>

text \<open>The number of lines that the parser takes for a \<open>Processing\<close> marker.\<close>

definition markers :: "string list \<Rightarrow> nat" where
  "markers ls = length (filter is_processing (kinds ls))"

text \<open>
  A run of lines after a marker that leaves the entry incomplete: no further marker, and
  no \<open>DOI:\<close> line or no \<open>Abstract:\<close> line.
\<close>

definition incomplete_block :: "string list \<Rightarrow> bool" where
  "incomplete_block ls =
     ((\<forall>k \<in> set (kinds ls). \<not> is_processing k)
      \<and> ((\<forall>k \<in> set (kinds ls). \<not> is_doi k) \<or> (\<forall>k \<in> set (kinds ls). \<not> is_abstract k)))"

text \<open>A marker line on which the citation pattern matches.\<close>

definition well_formed_marker :: "string \<Rightarrow> bool" where
  "well_formed_marker l = (\<exists>c. classify (clean_line l) = L_processing (Some c))"

text \<open>
  A line, with or without its terminator, that has no newline inside and does not begin
  with a log prefix.
\<close>

definition plain_line :: "string \<Rightarrow> bool" where
  "plain_line l =
     (let b = rstrip_chars [newline] l
      in newline \<notin> set b \<and> \<not> is_log_prefix (take 33 b))"

text \<open>Example ledgers.\<close>

definition with_terminators :: "string list \<Rightarrow> string" where
  "with_terminators ls = concat (map (\<lambda>l. l @ [newline]) ls)"

definition ledger_bad_marker :: "string list" where
  "ledger_bad_marker =
     [''Processing [1/2] Smith 2020'',
      ''  Title: First title'',
      ''  DOI: 10.1/x'',
      ''  Abstract: Text.'',
      ''Processing [2] Lee 2021'',
      ''  Title: Second title'']"

definition ledger_titles_only :: "string list" where
  "ledger_titles_only =
     [''Processing [1/2] Smith 2020'',
      ''  Title: First title'',
      ''Processing [2/2] Lee 2021'',
      ''  Title: Second title'']"

definition ledger_last_incomplete :: "string list" where
  "ledger_last_incomplete =
     [''Processing [1/2] Smith 2020'',
      ''  Title: First title'',
      ''  DOI: 10.1/x'',
      ''  Abstract: Text.'',
      ''Processing [2/2] Lee 2021'',
      ''  Title: Second title'']"

definition ledger_middle_incomplete :: "string list" where
  "ledger_middle_incomplete =
     [''Processing [1/2] Smith 2020'',
      ''  Title: First title'',
      ''  Abstract: Text.'',
      ''Processing [2/2] Lee 2021'',
      ''  DOI: 10.5/y'',
      ''  Abstract: More text.'']"

definition example_log_prefix :: string where
  "example_log_prefix = ''2025-12-22 16:11:52,549 - INFO - ''"

definition ledger_prefixed_marker :: "string list" where
  "ledger_prefixed_marker =
     [''2025-12-22 16:11:52,549 - INFO - Processing [1/1] Smith 2020'',
      ''  DOI: 10.1/x'',
      ''  Abstract: Text.'']"

section \<open>Regular expressions, as \<open>re\<close> matches them\<close>

text \<open>
  The patterns that the source hands to \<open>re.search\<close> are written in the constructors below
  and run by a backtracking matcher that tries the alternatives in the order of \<open>re\<close>:
  the left branch of \<open>|\<close> first, one more iteration of \<open>*\<close> before none.
\<close>

text \<open>\<open>\w\<close> of a \<open>str\<close> pattern, on the code points 0..255.\<close>

definition isword :: "char \<Rightarrow> bool" where
  "isword c = (let n = (of_char c :: nat)
     in (48 \<le> n \<and> n \<le> 57) \<or> (65 \<le> n \<and> n \<le> 90) \<or> n = 95 \<or> (97 \<le> n \<and> n \<le> 122)
        \<or> n = 170 \<or> n = 178 \<or> n = 179 \<or> n = 181 \<or> n = 185 \<or> n = 186
        \<or> (188 \<le> n \<and> n \<le> 190) \<or> (192 \<le> n \<and> n \<le> 214) \<or> (216 \<le> n \<and> n \<le> 246)
        \<or> 248 \<le> n)"

text \<open>\<open>str.upper\<close> on one code point, where the result stays within 0..255.\<close>

definition upper_char :: "char \<Rightarrow> char" where
  "upper_char c = (let n = (of_char c :: nat)
     in if (97 \<le> n \<and> n \<le> 122) \<or> (224 \<le> n \<and> n \<le> 254 \<and> n \<noteq> 247)
        then char_of (n - 32) else c)"

datatype rx =
    Eps
  | Chr char
  | Cls "char \<Rightarrow> bool"
  | WordB
  | Bol
  | Eol
  | Seq rx rx
  | Alt rx rx
  | Star rx

text \<open>\<open>r+\<close>, \<open>r?\<close>, a literal string, and a sequence of parts.\<close>

definition Plus :: "rx \<Rightarrow> rx" where
  "Plus r = Seq r (Star r)"

definition Opt :: "rx \<Rightarrow> rx" where
  "Opt r = Alt r Eps"

definition Str :: "string \<Rightarrow> rx" where
  "Str s = foldr (\<lambda>c r. Seq (Chr c) r) s Eps"

definition seqs :: "rx list \<Rightarrow> rx" where
  "seqs rs = foldr Seq rs Eps"

text \<open>The flags \<open>re.IGNORECASE\<close> and \<open>re.MULTILINE\<close>.\<close>

record flags =
  ignorecase :: bool
  multiline :: bool

definition no_flags :: flags where
  "no_flags = \<lparr>ignorecase = False, multiline = False\<rparr>"

definition chr_ok :: "flags \<Rightarrow> char \<Rightarrow> char \<Rightarrow> bool" where
  "chr_ok fl c x = (if ignorecase fl then lower_char x = lower_char c else x = c)"

definition cls_ok :: "flags \<Rightarrow> (char \<Rightarrow> bool) \<Rightarrow> char \<Rightarrow> bool" where
  "cls_ok fl p x = (if ignorecase fl then p x \<or> p (lower_char x) \<or> p (upper_char x) else p x)"

text \<open>
  A position of the matcher in the string: the character in front of it, if any, and the
  rest of the string from it.
\<close>

type_synonym cursor = "char option \<times> string"

text \<open>\<open>\b\<close>: exactly one of the characters before and after the position is a word character.\<close>

definition word_boundary :: "cursor \<Rightarrow> bool" where
  "word_boundary cu =
     ((case fst cu of Some c \<Rightarrow> isword c | None \<Rightarrow> False)
      \<noteq> (case snd cu of c # _ \<Rightarrow> isword c | [] \<Rightarrow> False))"

text \<open>\<open>^\<close>: the start of the string, and with MULTILINE also the position after a newline.\<close>

definition at_bol :: "flags \<Rightarrow> cursor \<Rightarrow> bool" where
  "at_bol fl cu = (fst cu = None \<or> (multiline fl \<and> fst cu = Some newline))"

text \<open>
  \<open>$\<close>: the end of the string and the position in front of a newline that ends the
  string; with MULTILINE the position in front of any newline.
\<close>

definition at_eol :: "flags \<Rightarrow> cursor \<Rightarrow> bool" where
  "at_eol fl cu =
     (case snd cu of
        [] \<Rightarrow> True
      | c # cs \<Rightarrow> c = newline \<and> (multiline fl \<or> cs = []))"

text \<open>
  The positions at which a match of \<open>r\<close> that starts at the cursor can end, in the order in
  which \<open>re\<close> tries them. An iteration of \<open>*\<close> that consumes nothing is not repeated.
\<close>

function ends :: "flags \<Rightarrow> rx \<Rightarrow> cursor \<Rightarrow> cursor list" where
  "ends fl Eps cu = [cu]"
| "ends fl (Chr c) cu =
     (case snd cu of x # xs \<Rightarrow> if chr_ok fl c x then [(Some x, xs)] else [] | [] \<Rightarrow> [])"
| "ends fl (Cls p) cu =
     (case snd cu of x # xs \<Rightarrow> if cls_ok fl p x then [(Some x, xs)] else [] | [] \<Rightarrow> [])"
| "ends fl WordB cu = (if word_boundary cu then [cu] else [])"
| "ends fl Bol cu = (if at_bol fl cu then [cu] else [])"
| "ends fl Eol cu = (if at_eol fl cu then [cu] else [])"
| "ends fl (Seq a b) cu = concat (map (ends fl b) (ends fl a cu))"
| "ends fl (Alt a b) cu = ends fl a cu @ ends fl b cu"
| "ends fl (Star r) cu =
     concat (map (\<lambda>cu'. if length (snd cu') < length (snd cu) then ends fl (Star r) cu' else [])
                 (ends fl r cu)) @ [cu]"
  by pat_completeness auto
termination
  by (relation "(\<lambda>(fl, r, cu). size r) <*mlex*> measure (\<lambda>(fl, r, cu). length (snd cu))")
     (auto simp: wf_mlex mlex_less mlex_leq)

text \<open>
  \<open>re.search\<close>: the leftmost start position with a match, and there the first end that the
  matcher finds: \<open>(m.start(), m.end())\<close>.
\<close>

function search_from :: "flags \<Rightarrow> rx \<Rightarrow> nat \<Rightarrow> char option \<Rightarrow> string \<Rightarrow> (nat \<times> nat) option" where
  "search_from fl r i p rest =
     (if ends fl r (p, rest) \<noteq> []
      then Some (i, i + (length rest - length (snd (hd (ends fl r (p, rest))))))
      else if rest = [] then None
      else search_from fl r (Suc i) (Some (hd rest)) (tl rest))"
  by pat_completeness auto
termination
  by (relation "measure (\<lambda>(fl, r, i, p, rest). length rest)") auto

declare search_from.simps [simp del]

definition re_search :: "flags \<Rightarrow> rx \<Rightarrow> string \<Rightarrow> (nat \<times> nat) option" where
  "re_search fl r s = search_from fl r 0 None s"

section \<open>Abstract segmenter: \<open>_find_abstract_in_text\<close>\<close>

text \<open>The character classes of the patterns.\<close>

definition ws :: rx where
  "ws = Cls isspace"

definition digit :: rx where
  "digit = Cls isdigit"

text \<open>\<open>[:\s]\<close>\<close>

definition colon_or_space :: rx where
  "colon_or_space = Cls (\<lambda>c. c = CHR '':'' \<or> isspace c)"

text \<open>\<open>[A-Z]\<close>\<close>

definition capital :: rx where
  "capital = Cls (\<lambda>c. 65 \<le> (of_char c :: nat) \<and> (of_char c :: nat) \<le> 90)"

text \<open>
  \<^verbatim>\<open>
  ABSTRACT_START_PATTERNS = [
      r'\bAbstract\b[:\s]*',
      r'\bSummary\b[:\s]*',
      r'\bExecutive\s+Summary\b[:\s]*',
      r'\bManagement\s+Summary\b[:\s]*',
      r'\bSYNOPSIS\b[:\s]*',
      r'\bABSTRACT\b[:\s]*',
      r'\bSUMMARY\b[:\s]*',
      r'\bEXECUTIVE\s+SUMMARY\b[:\s]*',
      r'\bMANAGEMENT\s+SUMMARY\b[:\s]*',
  ]
  \<close>
\<close>

definition ABSTRACT_START_PATTERNS :: "rx list" where
  "ABSTRACT_START_PATTERNS =
     [seqs [WordB, Str ''Abstract'', WordB, Star colon_or_space],
      seqs [WordB, Str ''Summary'', WordB, Star colon_or_space],
      seqs [WordB, Str ''Executive'', Plus ws, Str ''Summary'', WordB, Star colon_or_space],
      seqs [WordB, Str ''Management'', Plus ws, Str ''Summary'', WordB, Star colon_or_space],
      seqs [WordB, Str ''SYNOPSIS'', WordB, Star colon_or_space],
      seqs [WordB, Str ''ABSTRACT'', WordB, Star colon_or_space],
      seqs [WordB, Str ''SUMMARY'', WordB, Star colon_or_space],
      seqs [WordB, Str ''EXECUTIVE'', Plus ws, Str ''SUMMARY'', WordB, Star colon_or_space],
      seqs [WordB, Str ''MANAGEMENT'', Plus ws, Str ''SUMMARY'', WordB, Star colon_or_space]]"

text \<open>
  \<^verbatim>\<open>
  ABSTRACT_END_PATTERNS = [
      r'\b(Keywords?|Key\s*words?)\s*:',
      r'\b(Table\s+of\s+Contents?|TABLE\s+OF\s+CONTENTS?|Contents?)\s*$',
      r'\b(Introduction|INTRODUCTION)\b',
      r'\b(Background|BACKGROUND)\b',
      r'\b1\.\s*(Introduction|INTRODUCTION)',
      r'\bI\.\s*(Introduction|INTRODUCTION)',
      r'^\s*\d+\.\s+[A-Z]',
      r'\.\s*\.\s*\.\s*\.',
  ]
  \<close>
\<close>

definition ABSTRACT_END_PATTERNS :: "rx list" where
  "ABSTRACT_END_PATTERNS =
     [seqs [WordB,
            Alt (seqs [Str ''Keyword'', Opt (Chr CHR ''s'')])
                (seqs [Str ''Key'', Star ws, Str ''word'', Opt (Chr CHR ''s'')]),
            Star ws, Chr CHR '':''],
      seqs [WordB,
            Alt (seqs [Str ''Table'', Plus ws, Str ''of'', Plus ws, Str ''Content'', Opt (Chr CHR ''s'')])
             (Alt (seqs [Str ''TABLE'', Plus ws, Str ''OF'', Plus ws, Str ''CONTENT'', Opt (Chr CHR ''S'')])
                  (seqs [Str ''Content'', Opt (Chr CHR ''s'')])),
            Star ws, Eol],
      seqs [WordB, Alt (Str ''Introduction'') (Str ''INTRODUCTION''), WordB],
      seqs [WordB, Alt (Str ''Background'') (Str ''BACKGROUND''), WordB],
      seqs [WordB, Chr CHR ''1'', Chr CHR ''.'', Star ws, Alt (Str ''Introduction'') (Str ''INTRODUCTION'')],
      seqs [WordB, Chr CHR ''I'', Chr CHR ''.'', Star ws, Alt (Str ''Introduction'') (Str ''INTRODUCTION'')],
      seqs [Bol, Star ws, Plus digit, Chr CHR ''.'', Plus ws, capital],
      seqs [Chr CHR ''.'', Star ws, Chr CHR ''.'', Star ws, Chr CHR ''.'', Star ws, Chr CHR ''.'']]"

definition IGNORECASE :: flags where
  "IGNORECASE = \<lparr>ignorecase = True, multiline = False\<rparr>"

definition IGNORECASE_MULTILINE :: flags where
  "IGNORECASE_MULTILINE = \<lparr>ignorecase = True, multiline = True\<rparr>"

text \<open>
  \<open>_clean_abstract\<close>:
  \<^verbatim>\<open>
  text = re.sub(r'\s+', ' ', text)
  text = re.sub(r'\d+\s*$', '', text)
  text = re.sub(r'^\s*[\d\-]+\s*', '', text)
  return text.strip()
  \<close>
  The first substitution replaces every maximal run of whitespace by one space.
\<close>

function collapse_whitespace :: "string \<Rightarrow> string" where
  "collapse_whitespace [] = []"
| "collapse_whitespace (c # cs) =
     (if isspace c then CHR '' '' # collapse_whitespace (dropWhile isspace cs)
      else c # collapse_whitespace cs)"
  by pat_completeness auto
termination
  by (relation "measure length") (auto simp: length_dropWhile_le less_Suc_eq_le)

text \<open>
  \<open>\d+\s*$\<close> matches at the leftmost position from which only digits and then only
  whitespace follow up to the end of the string (the greedy \<open>\s*\<close> takes a final newline
  with it): the last run of digits, when nothing but whitespace comes after it.
\<close>

definition strip_page_number :: "string \<Rightarrow> string" where
  "strip_page_number s =
     (let r = dropWhile isspace (rev s)
      in if takeWhile isdigit r \<noteq> [] then rev (dropWhile isdigit r) else s)"

text \<open>
  \<open>^\s*[\d\-]+\s*\<close> matches at position 0 only: whitespace, then at least one digit or
  dash, then whitespace. The three classes are disjoint, so each greedy run is the only
  candidate.
\<close>

definition strip_leading_number :: "string \<Rightarrow> string" where
  "strip_leading_number s =
     (let r = dropWhile isspace s
      in if takeWhile (\<lambda>c. isdigit c \<or> c = CHR ''-'') r \<noteq> []
         then dropWhile isspace (dropWhile (\<lambda>c. isdigit c \<or> c = CHR ''-'') r)
         else s)"

definition clean_abstract :: "string \<Rightarrow> string" where
  "clean_abstract text = strip (strip_leading_number (strip_page_number (collapse_whitespace text)))"

text \<open>\<open>text.split()\<close>: the maximal runs of characters that are no whitespace.\<close>

function split :: "string \<Rightarrow> string list" where
  "split s =
     (if dropWhile isspace s = [] then []
      else takeWhile (\<lambda>x. \<not> isspace x) (dropWhile isspace s)
           # split (dropWhile (\<lambda>x. \<not> isspace x) (dropWhile isspace s)))"
  by pat_completeness auto
termination
proof (relation "measure length")
  fix s
  assume ne: "dropWhile isspace s \<noteq> []"
  then obtain c cs where c: "dropWhile isspace s = c # cs"
    by (cases "dropWhile isspace s") auto
  then have "\<not> isspace c"
    by (metis hd_dropWhile list.sel(1) list.distinct(1))
  then have "length (dropWhile (\<lambda>x. \<not> isspace x) (c # cs)) \<le> length cs"
    by (simp add: length_dropWhile_le)
  moreover have "length (c # cs) \<le> length s"
    using c by (metis length_dropWhile_le)
  ultimately show "(dropWhile (\<lambda>x. \<not> isspace x) (dropWhile isspace s), s) \<in> measure length"
    by (simp add: c)
qed simp

declare split.simps [simp del]

definition word_count :: "string \<Rightarrow> nat" where
  "word_count s = length (split s)"

text \<open>
  The inner loop over \<open>ABSTRACT_END_PATTERNS\<close>:
  \<^verbatim>\<open>
  end_pos = len(remaining_text)
  for end_pattern in self.ABSTRACT_END_PATTERNS:
      end_match = re.search(end_pattern, remaining_text, re.IGNORECASE | re.MULTILINE)
      if end_match and end_match.start() < end_pos:
          end_pos = end_match.start()
  \<close>
\<close>

definition find_end_pos :: "string \<Rightarrow> nat" where
  "find_end_pos remaining_text =
     foldl (\<lambda>end_pos end_pattern.
              case re_search IGNORECASE_MULTILINE end_pattern remaining_text of
                Some (start, _) \<Rightarrow> if start < end_pos then start else end_pos
              | None \<Rightarrow> end_pos)
           (length remaining_text) ABSTRACT_END_PATTERNS"

text \<open>
  The body of the outer loop once the start pattern has matched, from
  \<open>remaining_text = text[start_pos:]\<close> to the cleaned candidate:
  \<^verbatim>\<open>
  abstract = remaining_text[:end_pos].strip()
  abstract = self._clean_abstract(abstract)
  \<close>
\<close>

definition cut_abstract :: "string \<Rightarrow> string" where
  "cut_abstract remaining_text =
     clean_abstract (strip (take (find_end_pos remaining_text) remaining_text))"

text \<open>
  \<open>match = re.search(start_pattern, text, re.IGNORECASE)\<close> and \<open>if match:\<close> with
  \<open>start_pos = match.end()\<close>: the candidate of one start pattern, \<open>None\<close> when the
  pattern does not match.
\<close>

fun candidate_at :: "string \<Rightarrow> (nat \<times> nat) option \<Rightarrow> string option" where
  "candidate_at text None = None"
| "candidate_at text (Some (start, start_pos)) = Some (cut_abstract (drop start_pos text))"

definition candidate :: "string \<Rightarrow> rx \<Rightarrow> string option" where
  "candidate text start_pattern = candidate_at text (re_search IGNORECASE start_pattern text)"

text \<open>\<open>if 50 < word_count < 1000\<close>\<close>

definition valid_abstract :: "string \<Rightarrow> bool" where
  "valid_abstract a = (50 < word_count a \<and> word_count a < 1000)"

text \<open>
  The loop over \<open>ABSTRACT_START_PATTERNS\<close>: \<open>validate\<close> is the rest of the loop body for a
  pattern, given its candidate; it returns the candidate or goes on with the next pattern.
\<close>

fun find_abstract_loop :: "string \<Rightarrow> rx list \<Rightarrow> string option"
  and validate :: "string \<Rightarrow> rx list \<Rightarrow> string option \<Rightarrow> string option" where
  "find_abstract_loop text [] = None"
| "find_abstract_loop text (p # ps) = validate text ps (candidate text p)"
| "validate text ps None = find_abstract_loop text ps"
| "validate text ps (Some a) = (if valid_abstract a then Some a else find_abstract_loop text ps)"

definition find_abstract_in_text :: "string \<Rightarrow> string option" where
  "find_abstract_in_text text = find_abstract_loop text ABSTRACT_START_PATTERNS"

section \<open>Notions for the properties of the segmenter\<close>

text \<open>The candidates of the start patterns that match, in the order of the patterns.\<close>

definition candidates :: "string \<Rightarrow> string list" where
  "candidates text = List.map_filter (candidate text) ABSTRACT_START_PATTERNS"

text \<open>Every whitespace character is a plain space.\<close>

definition plain_spaces :: "string \<Rightarrow> bool" where
  "plain_spaces s = (\<forall>c \<in> set s. isspace c \<longrightarrow> c = CHR '' '')"

text \<open>No two whitespace characters in a row.\<close>

fun no_run :: "string \<Rightarrow> bool" where
  "no_run (c # d # r) = (\<not> (isspace c \<and> isspace d) \<and> no_run (d # r))"
| "no_run [c] = True"
| "no_run [] = True"

text \<open>Both together.\<close>

definition tidy :: "string \<Rightarrow> bool" where
  "tidy s = (plain_spaces s \<and> no_run s)"

text \<open>Example texts.\<close>

definition text_30_words :: string where
  "text_30_words =
     ''A study'' @ [newline] @ ''Abstract: '' @ concat (replicate 30 ''word '') @ [newline]
     @ ''Keywords: x, y''"

definition text_summary_first :: string where
  "text_summary_first =
     ''Summary: '' @ concat (replicate 55 ''word '') @ ''Keywords: k. Abstract: too short''"

definition text_with_newlines :: string where
  "text_with_newlines =
     ''Abstract'' @ [newline] @ concat (replicate 26 (''first'' @ [newline] @ ''second  ''))
     @ [newline] @ ''7'' @ [newline]"

definition words_30 :: string where
  "words_30 = concat (replicate 29 ''word '') @ ''word''"

definition words_55 :: string where
  "words_55 = concat (replicate 54 ''word '') @ ''word''"

definition first_second_26 :: string where
  "first_second_26 = concat (replicate 25 ''first second '') @ ''first second''"

section \<open>Character tests on the bits of a character\<close>

text \<open>
  The tests of the first section, decided on the eight bits of the character (\<open>b0\<close> the
  lowest). They are the same functions; the matcher runs faster on these equations.
\<close>

lemma isspace_bits [code]:
  "isspace (Char b0 b1 b2 b3 b4 b5 b6 b7) \<longleftrightarrow> (if b7 then (\<not> b6 \<and> (if b5 then (\<not> b4 \<and> (\<not> b3 \<and> (\<not> b2 \<and> (\<not> b1 \<and> \<not> b0)))) else (\<not> b4 \<and> (\<not> b3 \<and> (b2 \<and> (\<not> b1 \<and> b0)))))) else (\<not> b6 \<and> (if b5 then (\<not> b4 \<and> (\<not> b3 \<and> (\<not> b2 \<and> (\<not> b1 \<and> \<not> b0)))) else (if b4 then (b3 \<and> b2) else (b3 \<and> (if b2 then \<not> b1 else (b1 \<or> b0)))))))"
  by (cases b0; cases b1; cases b2; cases b3; cases b4; cases b5; cases b6; cases b7;
      simp add: isspace_def)

lemma isdigit_bits [code]:
  "isdigit (Char b0 b1 b2 b3 b4 b5 b6 b7) \<longleftrightarrow> (\<not> b7 \<and> (\<not> b6 \<and> (b5 \<and> (b4 \<and> (\<not> b3 \<or> (\<not> b2 \<and> \<not> b1))))))"
  by (cases b0; cases b1; cases b2; cases b3; cases b4; cases b5; cases b6; cases b7;
      simp add: isdigit_def)

lemma isword_bits [code]:
  "isword (Char b0 b1 b2 b3 b4 b5 b6 b7) \<longleftrightarrow> (if b7 then (if b6 then (if b5 then (\<not> b4 \<or> (b3 \<or> (\<not> b2 \<or> (\<not> b1 \<or> \<not> b0)))) else (\<not> b4 \<or> (b3 \<or> (\<not> b2 \<or> (\<not> b1 \<or> \<not> b0))))) else (b5 \<and> (if b4 then (if b3 then (if b2 then (\<not> b1 \<or> \<not> b0) else (if b1 then \<not> b0 else b0)) else (if b2 then (\<not> b1 \<and> b0) else b1)) else (b3 \<and> (\<not> b2 \<and> (b1 \<and> \<not> b0)))))) else (if b6 then (if b5 then (if b4 then (\<not> b3 \<or> (\<not> b2 \<and> (\<not> b1 \<or> \<not> b0))) else (b3 \<or> (b2 \<or> (b1 \<or> b0)))) else (if b4 then (\<not> b3 \<or> (if b2 then (b1 \<and> b0) else (\<not> b1 \<or> \<not> b0))) else (b3 \<or> (b2 \<or> (b1 \<or> b0))))) else (b5 \<and> (b4 \<and> (\<not> b3 \<or> (\<not> b2 \<and> \<not> b1))))))"
  by (cases b0; cases b1; cases b2; cases b3; cases b4; cases b5; cases b6; cases b7;
      simp add: isword_def)

lemma lower_char_bits [code]:
  "lower_char (Char b0 b1 b2 b3 b4 b5 b6 b7) = Char b0 b1 b2 b3 b4 (b5 \<or> (if b7 then (b6 \<and> (\<not> b5 \<and> (\<not> b4 \<or> (if b3 then (\<not> b2 \<or> (\<not> b1 \<or> \<not> b0)) else (\<not> b2 \<or> (\<not> b1 \<or> \<not> b0)))))) else (b6 \<and> (\<not> b5 \<and> (if b4 then (\<not> b3 \<or> (\<not> b2 \<and> (\<not> b1 \<or> \<not> b0))) else (b3 \<or> (b2 \<or> (b1 \<or> b0)))))))) b6 b7"
  by (rule of_char_eqI [where ?'a = nat])
     (cases b0; cases b1; cases b2; cases b3; cases b4; cases b5; cases b6; cases b7;
      simp add: lower_char_def)

lemma upper_char_bits [code]:
  "upper_char (Char b0 b1 b2 b3 b4 b5 b6 b7) = Char b0 b1 b2 b3 b4 (b5 \<and> \<not> (if b7 then (b6 \<and> (b5 \<and> (\<not> b4 \<or> (if b3 then (\<not> b2 \<or> (\<not> b1 \<or> \<not> b0)) else (\<not> b2 \<or> (\<not> b1 \<or> \<not> b0)))))) else (b6 \<and> (b5 \<and> (if b4 then (\<not> b3 \<or> (\<not> b2 \<and> (\<not> b1 \<or> \<not> b0))) else (b3 \<or> (b2 \<or> (b1 \<or> b0)))))))) b6 b7"
  by (rule of_char_eqI [where ?'a = nat])
     (cases b0; cases b1; cases b2; cases b3; cases b4; cases b5; cases b6; cases b7;
      simp add: upper_char_def)

section \<open>Properties of the identifier normalizer\<close>

lemma length_rstrip_le: "length (rstrip s) \<le> length s"
  by (simp add: rstrip_def) (metis length_dropWhile_le length_rev)

lemma length_lstrip_le: "length (lstrip s) \<le> length s"
  by (simp add: lstrip_def length_dropWhile_le)

lemma length_strip_le: "length (strip s) \<le> length s"
  unfolding strip_def using length_rstrip_le [of "lstrip s"] length_lstrip_le [of s] by linarith

lemma length_rstrip_chars_le: "length (rstrip_chars cs s) \<le> length s"
  by (simp add: rstrip_chars_def) (metis length_dropWhile_le length_rev)

lemma length_sub_doi_label_le: "length (sub_doi_label s) \<le> length s"
  by (simp add: sub_doi_label_def)

lemma length_sub_resolver_le: "length (sub_resolver s) \<le> length s"
  by (simp add: sub_resolver_def split: option.splits)

lemma rstrip_idem: "rstrip (rstrip s) = rstrip s"
  by (simp add: rstrip_def)

lemma lstrip_rstrip: "lstrip (rstrip (lstrip s)) = rstrip (lstrip s)"
proof (cases "lstrip s")
  case Nil
  then show ?thesis by (simp add: rstrip_def) (simp add: lstrip_def)
next
  case (Cons c cs)
  then have c: "\<not> isspace c"
    unfolding lstrip_def by (metis hd_dropWhile list.sel(1) list.distinct(1))
  have "rstrip (c # cs) \<noteq> []"
    using c by (auto simp: rstrip_def dropWhile_append split: if_splits)
  moreover have "\<exists>zs. c # cs = rstrip (c # cs) @ zs"
    unfolding rstrip_def
    by (metis rev_append rev_rev_ident takeWhile_dropWhile_id)
  ultimately have "hd (rstrip (c # cs)) = c"
    by (metis hd_append2 list.sel(1))
  with c \<open>rstrip (c # cs) \<noteq> []\<close> have "lstrip (rstrip (c # cs)) = rstrip (c # cs)"
    by (cases "rstrip (c # cs)") (auto simp: lstrip_def)
  then show ?thesis by (simp only: Cons)
qed

lemma strip_idem: "strip (strip s) = strip s"
  by (simp add: strip_def lstrip_rstrip rstrip_idem)

lemma rstrip_chars_id: "s = [] \<or> last s \<notin> set cs \<Longrightarrow> rstrip_chars cs s = s"
  by (cases s rule: rev_cases) (auto simp: rstrip_chars_def)

lemma rstrip_chars_lt: "s \<noteq> [] \<Longrightarrow> last s \<in> set cs \<Longrightarrow> length (rstrip_chars cs s) < length s"
proof (cases s rule: rev_cases)
  case Nil
  assume "s \<noteq> []" with Nil show ?thesis by simp
next
  case (snoc ys y)
  assume "last s \<in> set cs"
  with snoc have "length (rstrip_chars cs s) = length (dropWhile (\<lambda>c. c \<in> set cs) (rev ys))"
    by (simp add: rstrip_chars_def)
  also have "\<dots> \<le> length ys" by (metis length_dropWhile_le length_rev)
  finally show ?thesis using snoc by simp
qed

lemma resolver_prefix_nonempty: "find P resolver_prefixes = Some p \<Longrightarrow> 0 < length p"
  by (auto simp: resolver_prefixes_def split: if_splits)

lemma clean_doi_fixed_iff:
  assumes st: "strip y = y"
  shows "clean_doi y = y \<longleftrightarrow> doi_normal y"
proof
  assume n: "doi_normal y"
  then have "sub_resolver y = y" "sub_doi_label y = y"
    by (simp_all add: doi_normal_def sub_resolver_def sub_doi_label_def)
  moreover from n have "rstrip_chars ''.,;:'' y = y"
    by (intro rstrip_chars_id) (simp add: doi_normal_def)
  ultimately show "clean_doi y = y" using st by (simp add: clean_doi_def)
next
  assume fx: "clean_doi y = y"
  let ?a = "sub_resolver y" and ?b = "sub_doi_label (sub_resolver y)"
  let ?c = "rstrip_chars ''.,;:'' (sub_doi_label (sub_resolver y))"
  have le: "length y \<le> length ?c" "length ?c \<le> length ?b" "length ?b \<le> length ?a" "length ?a \<le> length y"
    using fx length_strip_le [of ?c] length_rstrip_chars_le [of "''.,;:''" ?b]
      length_sub_doi_label_le [of ?a] length_sub_resolver_le [of y]
    by (simp_all add: clean_doi_def)
  have 1: "find (startswith y) resolver_prefixes = None"
  proof (rule ccontr)
    assume "find (startswith y) resolver_prefixes \<noteq> None"
    then obtain p where p: "find (startswith y) resolver_prefixes = Some p" by auto
    then have "length p \<le> length y"
      by (auto simp: find_Some_iff startswith_def) (metis length_take min.cobounded1 nat_le_linear take_all)
    moreover have "length ?a = length y - length p" using p by (simp add: sub_resolver_def)
    ultimately have "length ?a < length y"
      using resolver_prefix_nonempty [OF p] by linarith
    with le show False by simp
  qed
  then have a: "?a = y" by (simp add: sub_resolver_def)
  have 2: "\<not> has_doi_label y"
  proof
    assume h: "has_doi_label y"
    then have "length (lower (take 4 y)) = 4" by (simp add: has_doi_label_def)
    then have "4 \<le> length y" by (simp add: lower_def)
    with h a have "length ?b < length y" by (simp add: sub_doi_label_def)
    with le show False by simp
  qed
  then have b: "?b = y" using a by (simp add: sub_doi_label_def)
  have 3: "y = [] \<or> last y \<notin> set ''.,;:''"
  proof (rule ccontr)
    assume "\<not> ?thesis"
    then have "y \<noteq> []" "last y \<in> set ''.,;:''" by auto
    from rstrip_chars_lt [OF this] b le show False by simp
  qed
  from 1 2 3 show "doi_normal y" by (simp add: doi_normal_def)
qed

lemma strip_clean_doi: "strip (clean_doi x) = clean_doi x"
  by (simp add: clean_doi_def strip_idem)

text \<open>
  C2, as the code has it: \<open>clean_doi\<close> makes a single pass (one resolver prefix, then one
  \<open>doi:\<close> label, then trailing \<open>.,;:\<close>, then surrounding whitespace). A second pass
  changes nothing exactly when the result of the first pass has no resolver prefix, no
  \<open>doi:\<close> label and no trailing punctuation left; and
  \<open>clean_doi("DOI:10.1/ABC.") == "10.1/ABC"\<close>.
\<close>

theorem clean_doi_idempotent_iff:
  "(clean_doi (clean_doi x) = clean_doi x \<longleftrightarrow> doi_normal (clean_doi x))
   \<and> clean_doi ''DOI:10.1/ABC.'' = ''10.1/ABC''"
proof
  show "clean_doi (clean_doi x) = clean_doi x \<longleftrightarrow> doi_normal (clean_doi x)"
    by (rule clean_doi_fixed_iff) (rule strip_clean_doi)
  show "clean_doi ''DOI:10.1/ABC.'' = ''10.1/ABC''" by code_simp
qed

theorem clean_doi_idempotent_iff_witness:
  "doi_normal (clean_doi ''https://dx.doi.org/10.1/ABC;'')
   \<and> clean_doi (clean_doi ''https://dx.doi.org/10.1/ABC;'') = clean_doi ''https://dx.doi.org/10.1/ABC;''"
proof -
  have n: "doi_normal (clean_doi ''https://dx.doi.org/10.1/ABC;'')"
    by code_simp
  from clean_doi_idempotent_iff [of "''https://dx.doi.org/10.1/ABC;''", THEN conjunct1, THEN iffD2, OF n] n
  show ?thesis by (rule conjI [rotated])
qed

text \<open>
  C2 as stated (idempotent on every input) fails: a label in front of a resolver prefix
  survives the first pass, and so does punctuation in front of trailing whitespace.
\<close>

theorem clean_doi_not_idempotent:
  "clean_doi (clean_doi ''doi:https://doi.org/10.1/X'') \<noteq> clean_doi ''doi:https://doi.org/10.1/X''
   \<and> clean_doi (clean_doi ''10.1/X. '') \<noteq> clean_doi ''10.1/X. ''"
  by code_simp

section \<open>The view simulates the parser\<close>

lemma rep_init: "rep init_state v_init"
  by (simp add: rep_def init_state_def v_init_def current_def)

lemma rep_append_current:
  assumes "rep st (ds, k, e)"
  shows "rep (append_current st) (ds, if qualifies e then Suc k else k, e)"
proof -
  from assms obtain old where old: "updates st = old @ replicate k (current_item st)"
    "current_item st \<notin> set old" "\<forall>a \<in> set old. a < length (store st)"
    "map (\<lambda>a. store st ! a) old = ds" and c: "current_item st < length (store st)" "current st = e"
    by (auto simp: rep_def)
  show ?thesis
  proof (cases "qualifies e")
    case True
    have "updates st @ [current_item st] = old @ replicate (Suc k) (current_item st)"
      using old(1) by (simp add: replicate_append_same)
    with True old c show ?thesis
      by (auto simp: rep_def append_current_def current_def)
  next
    case False
    with assms c show ?thesis by (simp add: append_current_def)
  qed
qed

lemma rep_set_current:
  assumes "rep st (ds, k, e)"
  shows "rep (set_current f st) (ds, k, f e)"
proof -
  from assms obtain old where old: "updates st = old @ replicate k (current_item st)"
    "current_item st \<notin> set old" "\<forall>a \<in> set old. a < length (store st)"
    "map (\<lambda>a. store st ! a) old = ds" and c: "current_item st < length (store st)" "current st = e"
    by (auto simp: rep_def)
  have "map (\<lambda>a. (store st)[current_item st := f e] ! a) old = map (\<lambda>a. store st ! a) old"
    using old(2) by (intro map_cong refl nth_list_update_neq) blast
  with old c show ?thesis
    by (auto simp: rep_def set_current_def current_def)
qed

lemma rep_new_entry:
  assumes "rep st (ds, k, e)"
  shows "rep (st\<lparr>store := store st @ [new_entry c], current_item := length (store st)\<rparr>)
           (ds @ replicate k e, 0, new_entry c)"
proof -
  from assms obtain old where old: "updates st = old @ replicate k (current_item st)"
    "current_item st \<notin> set old" "\<forall>a \<in> set old. a < length (store st)"
    "map (\<lambda>a. store st ! a) old = ds" and c: "current_item st < length (store st)" "current st = e"
    by (auto simp: rep_def)
  let ?old = "old @ replicate k (current_item st)"
  have 1: "\<forall>a \<in> set ?old. a < length (store st)" using old(3) c(1) by auto
  then have 2: "length (store st) \<notin> set ?old" by blast
  have "map (\<lambda>a. (store st @ [new_entry c]) ! a) ?old = map (\<lambda>a. store st ! a) ?old"
    using 1 by (intro map_cong) (auto simp: nth_append)
  also have "\<dots> = ds @ replicate k e"
    using old(4) c(2) by (simp add: current_def)
  finally have 3: "map (\<lambda>a. (store st @ [new_entry c]) ! a) ?old = ds @ replicate k e" .
  show ?thesis
    unfolding rep_def using 1 2 3 old(1) by (auto simp: current_def less_Suc_eq)
qed

lemma rep_step:
  assumes "rep st v"
  shows "rep (parse_line st l) (v_step v (classify (clean_line l)))"
proof -
  obtain ds k e where v: "v = (ds, k, e)" by (cases v)
  show ?thesis
  proof (cases "classify (clean_line l)")
    case (L_processing m)
    from rep_append_current [OF assms [unfolded v]]
    have a: "rep (append_current st) (ds, if qualifies e then Suc k else k, e)" .
    show ?thesis
    proof (cases m)
      case None
      with a L_processing v show ?thesis by (simp add: parse_line_def)
    next
      case (Some c)
      with rep_new_entry [OF a, of c] L_processing v show ?thesis
        by (simp add: parse_line_def Let_def)
    qed
  qed (use assms v rep_set_current [of st ds k e] in \<open>simp_all add: parse_line_def\<close>)
qed

lemma rep_foldl: "rep st v \<Longrightarrow> rep (foldl parse_line st ls) (foldl v_step v (kinds ls))"
  by (induction ls arbitrary: st v) (simp_all add: kinds_def rep_step)

lemma rep_finish:
  assumes "rep st v"
  shows "finish st = v_finish v"
proof -
  obtain ds k e where v: "v = (ds, k, e)" by (cases v)
  from rep_append_current [OF assms [unfolded v]]
  obtain old where old: "updates (append_current st) = old @ replicate (if qualifies e then Suc k else k) (current_item (append_current st))"
    "map (\<lambda>a. store (append_current st) ! a) old = ds" and c: "current (append_current st) = e"
    by (auto simp: rep_def)
  then show ?thesis
    by (simp add: finish_def v Let_def current_def)
qed

lemma parse_lines_view: "parse_lines ls = v_finish (foldl v_step v_init (kinds ls))"
  unfolding parse_lines_def by (rule rep_finish) (rule rep_foldl [OF rep_init])

section \<open>Facts about \<open>strip\<close>\<close>

lemma lstrip_Cons: "lstrip (c # s) = (if isspace c then lstrip s else c # s)"
  by (simp add: lstrip_def)

lemma rstrip_Cons: "rstrip (c # s) = (if rstrip s = [] \<and> isspace c then [] else c # rstrip s)"
  by (auto simp: rstrip_def dropWhile_append)

lemma lstrip_Nil: "lstrip [] = []"
  by (simp add: lstrip_def)

lemma rstrip_Nil: "rstrip [] = []"
  by (simp add: rstrip_def)

lemma rstrip_lstrip_comm: "rstrip (lstrip s) = lstrip (rstrip s)"
proof (induction s)
  case Nil
  show ?case by (simp add: lstrip_Nil rstrip_Nil)
next
  case (Cons c s)
  show ?case
  proof (cases "isspace c")
    case True
    then show ?thesis using Cons
      by (cases "rstrip s = []") (simp_all add: lstrip_Cons rstrip_Cons lstrip_Nil)
  next
    case False
    then show ?thesis by (simp add: lstrip_Cons rstrip_Cons)
  qed
qed

lemma strip_rstrip: "strip (rstrip s) = strip s"
  by (simp add: strip_def flip: rstrip_lstrip_comm) (simp add: rstrip_def)

lemma strip_space_Cons: "isspace c \<Longrightarrow> strip (c # s) = strip s"
  by (simp add: strip_def lstrip_Cons)

lemma rstrip_append_nonspace:
  assumes "K \<noteq> []" "\<not> isspace (last K)"
  shows "rstrip (K @ u) = K @ rstrip u"
proof -
  from assms have "dropWhile isspace (rev K) = rev K"
    by (cases K rule: rev_cases) auto
  then show ?thesis
    by (auto simp: rstrip_def dropWhile_append)
qed

lemma strip_key:
  assumes "K \<noteq> []" "\<not> isspace (hd K)" "\<not> isspace (last K)"
  shows "strip (''  '' @ K @ u) = K @ rstrip u"
proof -
  have sp: "isspace CHR '' ''" by (simp add: isspace_def)
  from assms(1,2) have "lstrip (''  '' @ K @ u) = K @ u"
    by (cases K) (simp_all add: lstrip_Cons sp)
  then show ?thesis
    by (simp add: strip_def rstrip_append_nonspace [OF assms(1,3)] del: append.simps)
qed

lemma strip_field:
  assumes "K \<noteq> []" "\<not> isspace (hd K)" "\<not> isspace (last K)" and n: "n = length K"
  shows "strip (drop n (strip (''  '' @ K @ '' '' @ t))) = strip t"
proof -
  have sp: "isspace CHR '' ''" by (simp add: isspace_def)
  have "strip (''  '' @ K @ '' '' @ t) = K @ rstrip ('' '' @ t)"
    by (rule strip_key [OF assms(1-3)])
  then have "strip (drop n (strip (''  '' @ K @ '' '' @ t))) = strip (rstrip ('' '' @ t))"
    by (simp only: n drop_append) simp
  also have "\<dots> = strip t"
    by (simp add: strip_rstrip strip_space_Cons sp)
  finally show ?thesis .
qed

section \<open>The written lines, as the parser reads them\<close>

subsection \<open>Decimal numerals\<close>

lemma isdigit_char_of: "(k::nat) < 10 \<Longrightarrow> isdigit (char_of (48 + k))"
  by (simp add: isdigit_def)

lemma str_nat_digits: "str_nat n \<noteq> [] \<and> (\<forall>c \<in> set (str_nat n). isdigit c)"
proof (induction n rule: str_nat.induct)
  case (1 n)
  show ?case
  proof (cases "n < 10")
    case True
    then show ?thesis by (subst (1 2) str_nat.simps) (simp add: isdigit_char_of)
  next
    case False
    with 1 show ?thesis by (subst (1 2) str_nat.simps) (simp add: isdigit_char_of)
  qed
qed

lemma takeWhile_digits:
  "\<forall>c \<in> set ds. isdigit c \<Longrightarrow> \<not> isdigit x \<Longrightarrow> takeWhile isdigit (ds @ x # r) = ds"
  by (simp add: takeWhile_append)

lemma dropWhile_digits:
  "\<forall>c \<in> set ds. isdigit c \<Longrightarrow> \<not> isdigit x \<Longrightarrow> dropWhile isdigit (ds @ x # r) = x # r"
  by (simp add: dropWhile_append)

lemma one_line_digits: "\<forall>c \<in> set ds. isdigit c \<Longrightarrow> one_line ds"
  by (auto simp: one_line_def isdigit_def)

subsection \<open>Classification of the written lines\<close>

lemma dot_star_eol_one_line:
  assumes "newline \<notin> set r"
  shows "dot_star_eol r = Some r"
proof -
  from assms have "takeWhile (\<lambda>c. c \<noteq> newline) r = r" "dropWhile (\<lambda>c. c \<noteq> newline) r = []"
    by (auto simp: takeWhile_eq_all_conv)
  then show ?thesis by (simp add: dot_star_eol_def)
qed

lemma strip_log_prefix_nondigit: "\<not> isdigit c \<Longrightarrow> strip_log_prefix (c # s) = c # s"
  by (simp add: strip_log_prefix_def is_log_prefix_def log_prefix_template_def fits_def)

lemma rstrip_newline: "newline \<notin> set m \<Longrightarrow> rstrip_chars [newline] (m @ [newline]) = m"
  by (cases m rule: rev_cases) (auto simp: rstrip_chars_def)

lemma clean_line_written:
  "newline \<notin> set s \<Longrightarrow> \<not> isdigit c \<Longrightarrow> c \<noteq> newline \<Longrightarrow> clean_line ((c # s) @ [newline]) = c # s"
  unfolding clean_line_def by (subst rstrip_newline) (simp_all add: strip_log_prefix_nondigit)

lemma search_processing_hit: "match_processing_at s = Some g \<Longrightarrow> search_processing s = Some g"
  by (cases s) simp_all

lemma match_processing_line:
  assumes "c \<noteq> []" "newline \<notin> set c"
  shows "match_processing_at (processing_line i n c) = Some c"
proof -
  note d = str_nat_digits [of i, THEN conjunct2] str_nat_digits [of n, THEN conjunct2]
  have 1: "takeWhile isdigit (str_nat i @ CHR ''/'' # r) = str_nat i"
       "dropWhile isdigit (str_nat i @ CHR ''/'' # r) = CHR ''/'' # r" for r
    by (rule takeWhile_digits dropWhile_digits, rule d, simp add: isdigit_def)+
  have 2: "takeWhile isdigit (str_nat n @ CHR '']'' # r) = str_nat n"
       "dropWhile isdigit (str_nat n @ CHR '']'' # r) = CHR '']'' # r" for r
    by (rule takeWhile_digits dropWhile_digits, rule d, simp add: isdigit_def)+
  show ?thesis
    using assms str_nat_digits [of i] str_nat_digits [of n]
    by (simp add: match_processing_at_def processing_line_def startswith_def 1 2
        dot_plus_eol_def dot_star_eol_one_line)
qed

lemma classify_processing_line:
  assumes "c \<noteq> []" "newline \<notin> set c"
  shows "classify (processing_line i n c) = L_processing (Some c)"
proof -
  have "search_processing (processing_line i n c) = Some c"
    by (rule search_processing_hit) (rule match_processing_line [OF assms])
  moreover have "startswith (processing_line i n c) ''Processing [''"
    "processing_line i n c \<noteq> []" "\<not> startswith (processing_line i n c) ''=''"
    "\<not> startswith (processing_line i n c) ''-''"
    by (simp_all add: processing_line_def startswith_def)
  ultimately show ?thesis by (simp add: classify_def)
qed

lemma classify_title_line: "classify (title_line t) = L_title (strip t)"
proof -
  have k: "''Title:'' \<noteq> []" "\<not> isspace (hd ''Title:'')" "\<not> isspace (last ''Title:'')"
    by (simp_all add: isspace_def)
  have s: "strip (title_line t) = ''Title:'' @ rstrip ('' '' @ t)"
    using strip_key [OF k, of "'' '' @ t"] by (simp add: title_line_def)
  have f: "strip (drop 6 (strip (title_line t))) = strip t"
    using strip_field [OF k, of 6 t] by (simp add: title_line_def)
  show ?thesis
    unfolding classify_def f by (simp add: s startswith_def) (simp add: title_line_def)
qed

lemma classify_doi_line: "classify (doi_line t) = L_doi (strip t)"
proof -
  have k: "''DOI:'' \<noteq> []" "\<not> isspace (hd ''DOI:'')" "\<not> isspace (last ''DOI:'')"
    by (simp_all add: isspace_def)
  have s: "strip (doi_line t) = ''DOI:'' @ rstrip ('' '' @ t)"
    using strip_key [OF k, of "'' '' @ t"] by (simp add: doi_line_def)
  have f: "strip (drop 4 (strip (doi_line t))) = strip t"
    using strip_field [OF k, of 4 t] by (simp add: doi_line_def)
  show ?thesis
    unfolding classify_def f by (simp add: s startswith_def) (simp add: doi_line_def)
qed

lemma classify_abstract_line: "classify (abstract_line t) = L_abstract (strip t)"
proof -
  have k: "''Abstract:'' \<noteq> []" "\<not> isspace (hd ''Abstract:'')" "\<not> isspace (last ''Abstract:'')"
    by (simp_all add: isspace_def)
  have s: "strip (abstract_line t) = ''Abstract:'' @ rstrip ('' '' @ t)"
    using strip_key [OF k, of "'' '' @ t"] by (simp add: abstract_line_def)
  have f: "strip (drop 9 (strip (abstract_line t))) = strip t"
    using strip_field [OF k, of 9 t] by (simp add: abstract_line_def)
  show ?thesis
    unfolding classify_def f by (simp add: s startswith_def) (simp add: abstract_line_def)
qed

lemma classify_dry_run_line: "classify (dry_run_line c a) = L_other"
proof -
  have k: "''['' \<noteq> []" "\<not> isspace (hd ''['')" "\<not> isspace (last ''['')"
    by (simp_all add: isspace_def)
  obtain u where u: "dry_run_line c a = ''  '' @ ''['' @ u"
    by (simp add: dry_run_line_def)
  have s: "strip (dry_run_line c a) = ''['' @ rstrip u"
    unfolding u by (rule strip_key [OF k])
  show ?thesis
    unfolding classify_def by (simp add: s startswith_def) (simp add: u)
qed

subsection \<open>Lines of the written text\<close>

lemma iter_lines_line:
  "one_line m \<Longrightarrow> iter_lines (m @ newline # rest) = (m @ [newline]) # iter_lines rest"
  by (induction m) (auto simp: one_line_def)

lemma iter_lines_concat:
  "\<forall>m \<in> set ms. one_line m \<Longrightarrow>
   iter_lines (concat (map (\<lambda>m. m @ [newline]) ms)) = map (\<lambda>m. m @ [newline]) ms"
  by (induction ms) (simp_all add: iter_lines_line)

lemma one_line_append: "one_line (a @ b) \<longleftrightarrow> one_line a \<and> one_line b"
  by (auto simp: one_line_def)

lemma one_line_Cons: "one_line (c # s) \<longleftrightarrow> c \<noteq> newline \<and> c \<noteq> carriage_return \<and> one_line s"
  by (auto simp: one_line_def)

lemma one_line_Nil: "one_line []"
  by (simp add: one_line_def)

lemma one_line_str_nat: "one_line (str_nat n)"
  by (rule one_line_digits) (simp add: str_nat_digits)

lemma one_line_write_entry:
  assumes "carried e"
  shows "\<forall>m \<in> set (write_entry verbose i n e). one_line m"
  using assms
  by (simp add: write_entry_def carried_def processing_line_def title_line_def doi_line_def
      dry_run_line_def abstract_line_def one_line_append one_line_Cons one_line_Nil one_line_str_nat)

lemma one_line_write_entries:
  "\<forall>e \<in> set es. carried e \<Longrightarrow> \<forall>m \<in> set (write_entries verbose i n es). one_line m"
  by (induction es arbitrary: i) (auto dest: one_line_write_entry)

lemma clean_written:
  assumes "one_line m" "m \<noteq> []" "\<not> isdigit (hd m)"
  shows "clean_line (m @ [newline]) = m"
proof -
  from assms obtain c s where m: "m = c # s" by (cases m) auto
  with assms show ?thesis
    unfolding m by (intro clean_line_written) (auto simp: one_line_def)
qed

lemma kinds_write_entry:
  assumes "carried e"
  shows "kinds (map (\<lambda>m. m @ [newline]) (write_entry verbose i n e)) = entry_kinds verbose e"
proof -
  note ol = one_line_write_entry [OF assms, of verbose i n, unfolded write_entry_def]
  have c: "le_citation e \<noteq> []" "newline \<notin> set (le_citation e)"
    using assms by (simp_all add: carried_def one_line_def)
  have 1: "clean_line (processing_line i n (le_citation e) @ [newline]) = processing_line i n (le_citation e)"
    using ol by (intro clean_written) (simp_all, simp_all add: processing_line_def isdigit_def)
  have 2: "clean_line (title_line (le_title e) @ [newline]) = title_line (le_title e)"
    using ol by (intro clean_written) (simp_all, simp_all add: title_line_def isdigit_def)
  have 3: "clean_line (doi_line (le_doi e) @ [newline]) = doi_line (le_doi e)"
    using ol by (intro clean_written) (simp_all, simp_all add: doi_line_def isdigit_def)
  have 4: "clean_line (abstract_line (le_abstract e) @ [newline]) = abstract_line (le_abstract e)"
    using ol by (intro clean_written) (simp_all, simp_all add: abstract_line_def isdigit_def)
  have 5: "clean_line (dry_run_line (le_citation e) (le_abstract e) @ [newline])
           = dry_run_line (le_citation e) (le_abstract e)" if verbose
    using ol that by (intro clean_written) (simp_all, simp_all add: dry_run_line_def isdigit_def)
  show ?thesis
    using assms
    by (simp add: kinds_def write_entry_def entry_kinds_def 1 2 3 4 5
        classify_processing_line [OF c] classify_title_line classify_doi_line
        classify_abstract_line classify_dry_run_line carried_def)
qed

lemma kinds_append: "kinds (xs @ ys) = kinds xs @ kinds ys"
  by (simp add: kinds_def)

lemma kinds_write_entries:
  "\<forall>e \<in> set es. carried e \<Longrightarrow>
   kinds (map (\<lambda>m. m @ [newline]) (write_entries verbose i n es)) = concat (map (entry_kinds verbose) es)"
  by (induction es arbitrary: i) (simp_all add: kinds_def [of "[]"] kinds_append kinds_write_entry)

lemma qualifies_as_entry: "qualifies (as_entry e)"
  by (simp add: qualifies_def as_entry_def empty_entry_def)

lemma v_step_entry:
  "foldl v_step (ds, 0, e0) (entry_kinds verbose e)
   = (ds @ (if qualifies e0 then [e0] else []), 0, as_entry e)"
  by (simp add: entry_kinds_def new_entry_def as_entry_def)

lemma v_run_entries:
  "v_finish (foldl v_step (ds, 0, e0) (concat (map (entry_kinds verbose) es)))
   = ds @ (if qualifies e0 then [e0] else []) @ map as_entry es"
proof (induction es arbitrary: ds e0)
  case Nil
  show ?case by simp
next
  case (Cons e es)
  show ?case
    by (simp only: list.map concat.simps foldl_append v_step_entry Cons.IH)
       (simp add: qualifies_as_entry)
qed

lemma parse_written:
  assumes "\<forall>e \<in> set es. carried e"
  shows "parse_lines (iter_lines (ledger_text verbose es)) = map as_entry es"
proof -
  have "iter_lines (ledger_text verbose es)
        = map (\<lambda>m. m @ [newline]) (write_entries verbose 1 (length es) es)"
    unfolding ledger_text_def
    by (rule iter_lines_concat) (rule one_line_write_entries [OF assms])
  then have "kinds (iter_lines (ledger_text verbose es)) = concat (map (entry_kinds verbose) es)"
    by (simp add: kinds_write_entries [OF assms])
  then show ?thesis
    by (simp add: parse_lines_view v_init_def v_run_entries qualifies_def)
qed

text \<open>
  C3, as the code has it: for every sequence of N \<ge> 0 entries with a citation of at least
  one character, no line break (newline or carriage return) in citation, title, identifier
  and abstract, and no leading or trailing whitespace in title, identifier and abstract,
  writing the entries in the ledger line format (with or without the dry-run status line
  that \<open>update_zotero_abstract\<close> logs in front of the abstract) and parsing the text yields
  exactly the N entries, field by field.
\<close>

theorem ledger_round_trip:
  assumes "\<forall>e \<in> set es. carried e"
  shows "parsed_entries (Readable (ledger_text verbose es)) = map as_entry es
         \<and> length (parsed_entries (Readable (ledger_text verbose es))) = length es"
  by (simp add: parsed_entries_def parse_abstract_updates_file_def parse_written [OF assms] Let_def)

theorem ledger_round_trip_witness:
  "carried entry_smith \<and> carried entry_lee
   \<and> parsed_entries (Readable (ledger_text True [entry_smith, entry_lee]))
       = [as_entry entry_smith, as_entry entry_lee]"
proof -
  have c: "carried entry_smith" "carried entry_lee"
    by code_simp+
  then have "\<forall>e \<in> set [entry_smith, entry_lee]. carried e"
    by simp
  from ledger_round_trip [OF this, of True] c show ?thesis
    by simp
qed

text \<open>
  C3 as stated (every entry without embedded newline comes back unchanged) fails: the
  parser strips the title, so a title that ends in a space comes back without it.
\<close>

theorem ledger_round_trip_fails:
  "newline \<notin> set (le_citation entry_trailing_space) \<and> newline \<notin> set (le_title entry_trailing_space)
   \<and> newline \<notin> set (le_doi entry_trailing_space) \<and> newline \<notin> set (le_abstract entry_trailing_space)
   \<and> parsed_entries (Readable (ledger_text False [entry_trailing_space]))
       = [\<lparr>citation = Some ''Smith 2020'', title = Some ''A title'', doi = Some ''10.1/x'',
           abstract = Some ''Text.''\<rparr>]
   \<and> parsed_entries (Readable (ledger_text False [entry_trailing_space]))
       \<noteq> map as_entry [entry_trailing_space]"
  by code_simp

section \<open>Markers and incomplete entries\<close>

lemma kinds_Nil: "kinds [] = []"
  by (simp add: kinds_def)

lemma kinds_Cons: "kinds (l # ls) = classify (clean_line l) # kinds ls"
  by (simp add: kinds_def)

lemma v_block_no_doi:
  assumes "\<forall>k \<in> set ks. \<not> is_processing k" "\<forall>k \<in> set ks. \<not> is_doi k"
  shows "\<exists>e'. foldl v_step (ds, n, e) ks = (ds, n, e') \<and> doi e' = doi e"
  using assms
proof (induction ks arbitrary: e)
  case Nil
  show ?case by simp
next
  case (Cons k ks)
  from Cons.prems have ks: "\<forall>k \<in> set ks. \<not> is_processing k" "\<forall>k \<in> set ks. \<not> is_doi k"
    by simp_all
  obtain e1 where e1: "v_step (ds, n, e) k = (ds, n, e1)" "doi e1 = doi e"
    using Cons.prems by (cases k) simp_all
  from Cons.IH [OF ks, of e1] e1 show ?case by simp
qed

lemma v_block_no_abstract:
  assumes "\<forall>k \<in> set ks. \<not> is_processing k" "\<forall>k \<in> set ks. \<not> is_abstract k"
  shows "\<exists>e'. foldl v_step (ds, n, e) ks = (ds, n, e') \<and> abstract e' = abstract e"
  using assms
proof (induction ks arbitrary: e)
  case Nil
  show ?case by simp
next
  case (Cons k ks)
  from Cons.prems have ks: "\<forall>k \<in> set ks. \<not> is_processing k" "\<forall>k \<in> set ks. \<not> is_abstract k"
    by simp_all
  obtain e1 where e1: "v_step (ds, n, e) k = (ds, n, e1)" "abstract e1 = abstract e"
    using Cons.prems by (cases k) simp_all
  from Cons.IH [OF ks, of e1] e1 show ?case by simp
qed

lemma v_incomplete_block:
  assumes "incomplete_block mid"
  shows "\<exists>e'. foldl v_step (ds, 0, new_entry c) (kinds mid) = (ds, 0, e') \<and> \<not> qualifies e'"
proof -
  from assms consider
    "\<forall>k \<in> set (kinds mid). \<not> is_processing k" "\<forall>k \<in> set (kinds mid). \<not> is_doi k"
  | "\<forall>k \<in> set (kinds mid). \<not> is_processing k" "\<forall>k \<in> set (kinds mid). \<not> is_abstract k"
    by (auto simp: incomplete_block_def)
  then show ?thesis
  proof cases
    case 1
    from v_block_no_doi [OF this, of ds 0 "new_entry c"] show ?thesis
      by (auto simp: qualifies_def new_entry_def)
  next
    case 2
    from v_block_no_abstract [OF this, of ds 0 "new_entry c"] show ?thesis
      by (auto simp: qualifies_def new_entry_def)
  qed
qed

lemma v_marker_finish:
  "fst (v_step v (L_processing (Some c))) = v_finish v"
  by (cases v) simp

lemma v_marker_shape: "\<exists>ds. v_step v (L_processing (Some c)) = (ds, 0, new_entry c)"
  by (cases v) simp

lemma dropped_before_marker:
  assumes m: "classify (clean_line m) = L_processing (Some c)"
    and m': "classify (clean_line m') = L_processing (Some c')"
    and mid: "incomplete_block mid"
  shows "parse_lines (pre @ m # mid @ m' # post) = parse_lines (pre @ m' # post)"
proof -
  define v where "v = foldl v_step v_init (kinds pre)"
  obtain ds where ds: "v_step v (L_processing (Some c)) = (ds, 0, new_entry c)"
    using v_marker_shape by blast
  then have fin: "ds = v_finish v"
    using v_marker_finish [of v c] by simp
  obtain e' where e': "foldl v_step (ds, 0, new_entry c) (kinds mid) = (ds, 0, e')" "\<not> qualifies e'"
    using v_incomplete_block [OF mid] by blast
  have "v_step (ds, 0, e') (L_processing (Some c')) = (ds, 0, new_entry c')"
    using e'(2) by simp
  moreover have "v_step v (L_processing (Some c')) = (ds, 0, new_entry c')"
    using fin by (cases v) simp
  ultimately show ?thesis
    using m m' ds e'(1)
    by (simp add: parse_lines_view kinds_Cons kinds_append v_def [symmetric])
qed

lemma dropped_at_end:
  assumes m: "classify (clean_line m) = L_processing (Some c)"
    and mid: "incomplete_block mid"
  shows "parse_lines (pre @ m # mid) = parse_lines pre"
proof -
  define v where "v = foldl v_step v_init (kinds pre)"
  obtain ds where ds: "v_step v (L_processing (Some c)) = (ds, 0, new_entry c)"
    using v_marker_shape by blast
  then have fin: "ds = v_finish v"
    using v_marker_finish [of v c] by simp
  obtain e' where e': "foldl v_step (ds, 0, new_entry c) (kinds mid) = (ds, 0, e')" "\<not> qualifies e'"
    using v_incomplete_block [OF mid] by blast
  show ?thesis
    using m ds e' fin
    by (simp add: parse_lines_view kinds_Cons kinds_append v_def [symmetric])
qed

lemma markers_append: "markers (xs @ ys) = markers xs + markers ys"
  by (simp add: markers_def kinds_append)

lemma markers_incomplete_block: "incomplete_block mid \<Longrightarrow> markers mid = 0"
  by (simp add: incomplete_block_def markers_def)

text \<open>
  C5, as the code has it: an entry begun by a marker line on which the citation pattern
  matches, and followed by no \<open>DOI:\<close> line or by no \<open>Abstract:\<close> line before the next such
  marker or the end of input, is dropped without notice: the parser returns what it
  returns for the input without the lines of that entry. In particular, when the lines
  before the last marker yield as many entries as they have markers and the last marker is
  followed only by a \<open>Title:\<close> line, the number of entries is one less than the number of
  markers.
\<close>

theorem incomplete_entry_dropped:
  assumes "well_formed_marker m" and "incomplete_block mid"
  shows "(well_formed_marker m' \<longrightarrow>
            parse_lines (pre @ m # mid @ m' # post) = parse_lines (pre @ m' # post))
         \<and> parse_lines (pre @ m # mid) = parse_lines pre
         \<and> (length (parse_lines pre) = markers pre \<longrightarrow>
              length (parse_lines (pre @ m # mid)) = markers (pre @ m # mid) - 1)"
proof (intro conjI impI)
  from assms(1) obtain c where c: "classify (clean_line m) = L_processing (Some c)"
    by (auto simp: well_formed_marker_def)
  show "parse_lines (pre @ m # mid) = parse_lines pre"
    by (rule dropped_at_end [OF c assms(2)])
  then show "length (parse_lines (pre @ m # mid)) = markers (pre @ m # mid) - 1"
    if "length (parse_lines pre) = markers pre"
    using that c markers_incomplete_block [OF assms(2)]
    by (simp add: markers_append) (simp add: markers_def kinds_Cons)
  show "parse_lines (pre @ m # mid @ m' # post) = parse_lines (pre @ m' # post)"
    if "well_formed_marker m'"
  proof -
    from that obtain c' where "classify (clean_line m') = L_processing (Some c')"
      by (auto simp: well_formed_marker_def)
    from dropped_before_marker [OF c this assms(2)] show ?thesis .
  qed
qed

theorem incomplete_entry_dropped_witness:
  "well_formed_marker ''Processing [1/2] Smith 2020''
   \<and> well_formed_marker ''Processing [2/2] Lee 2021''
   \<and> incomplete_block [''  Title: First title'', ''  Abstract: Text.'']
   \<and> incomplete_block [''  Title: Second title'']
   \<and> parse_lines ledger_middle_incomplete = parse_lines (drop 3 ledger_middle_incomplete)
   \<and> parse_lines ledger_last_incomplete = parse_lines (take 4 ledger_last_incomplete)
   \<and> length (parse_lines ledger_last_incomplete) = markers ledger_last_incomplete - 1"
proof -
  have m1: "well_formed_marker ''Processing [1/2] Smith 2020''"
    unfolding well_formed_marker_def by (rule exI [of _ "''Smith 2020''"]) code_simp
  have m2: "well_formed_marker ''Processing [2/2] Lee 2021''"
    unfolding well_formed_marker_def by (rule exI [of _ "''Lee 2021''"]) code_simp
  have b1: "incomplete_block [''  Title: First title'', ''  Abstract: Text.'']"
    by code_simp
  have b2: "incomplete_block [''  Title: Second title'']"
    by code_simp
  have pre: "length (parse_lines (take 4 ledger_last_incomplete)) = markers (take 4 ledger_last_incomplete)"
    by code_simp
  have s1: "[] @ ''Processing [1/2] Smith 2020'' # [''  Title: First title'', ''  Abstract: Text.'']
              @ ''Processing [2/2] Lee 2021'' # [''  DOI: 10.5/y'', ''  Abstract: More text.'']
            = ledger_middle_incomplete"
       "[] @ ''Processing [2/2] Lee 2021'' # [''  DOI: 10.5/y'', ''  Abstract: More text.'']
            = drop 3 ledger_middle_incomplete"
    by (simp_all add: ledger_middle_incomplete_def)
  have s2: "take 4 ledger_last_incomplete @ ''Processing [2/2] Lee 2021'' # [''  Title: Second title'']
            = ledger_last_incomplete"
    by (simp add: ledger_last_incomplete_def)
  from incomplete_entry_dropped [OF m1 b1, of "''Processing [2/2] Lee 2021''" "[]"
      "[''  DOI: 10.5/y'', ''  Abstract: More text.'']"] m2
  have "parse_lines ledger_middle_incomplete = parse_lines (drop 3 ledger_middle_incomplete)"
    unfolding s1 by blast
  moreover from incomplete_entry_dropped [OF m2 b2, of _ "take 4 ledger_last_incomplete"] pre
  have "parse_lines ledger_last_incomplete = parse_lines (take 4 ledger_last_incomplete)
        \<and> length (parse_lines ledger_last_incomplete) = markers ledger_last_incomplete - 1"
    unfolding s2 by blast
  ultimately show ?thesis
    using m1 m2 b1 b2 by blast
qed

text \<open>
  C5 as stated (one fewer than the markers whenever the last marker is followed only by a
  \<open>Title:\<close> line) fails: every incomplete entry is dropped, not only the last one. Here
  both markers are followed only by a \<open>Title:\<close> line, and no entry is left.
\<close>

theorem titles_only_counterexample:
  "kinds ledger_titles_only
     = [L_processing (Some ''Smith 2020''), L_title ''First title'',
        L_processing (Some ''Lee 2021''), L_title ''Second title'']
   \<and> parse_lines ledger_titles_only = []
   \<and> markers ledger_titles_only = 2
   \<and> length (parse_lines ledger_titles_only) \<noteq> markers ledger_titles_only - 1"
  by code_simp

section \<open>A marker line without a citation match\<close>

text \<open>
  C4 on the code, at a ledger whose second marker was edited to \<open>Processing [2] Lee 2021\<close>:
  the line starts with \<open>Processing [\<close>, so the complete entry of Smith is appended, but the
  citation pattern does not match and \<open>current_item\<close> stays the dict that was just
  appended (address 1 of the store). The following \<open>Title:\<close> line overwrites the title of
  that dict, and at the end of input the same dict is appended a second time.
\<close>

theorem bad_marker_appends_twice:
  "classify (clean_line ''Processing [2] Lee 2021'') = L_processing None
   \<and> updates (foldl parse_line init_state (take 5 ledger_bad_marker)) = [1]
   \<and> current_item (foldl parse_line init_state (take 5 ledger_bad_marker)) = 1
   \<and> parse_lines (take 4 ledger_bad_marker)
       = [\<lparr>citation = Some ''Smith 2020'', title = Some ''First title'', doi = Some ''10.1/x'',
           abstract = Some ''Text.''\<rparr>]
   \<and> parse_lines ledger_bad_marker
       = [\<lparr>citation = Some ''Smith 2020'', title = Some ''Second title'', doi = Some ''10.1/x'',
           abstract = Some ''Text.''\<rparr>,
          \<lparr>citation = Some ''Smith 2020'', title = Some ''Second title'', doi = Some ''10.1/x'',
           abstract = Some ''Text.''\<rparr>]
   \<and> parse_abstract_updates_file (Readable (with_terminators ledger_bad_marker))
       = Some (parse_lines ledger_bad_marker)"
  by code_simp

section \<open>The log prefix\<close>

lemma rstrip_chars_append_keep:
  assumes "K \<noteq> []" "last K \<notin> set cs"
  shows "rstrip_chars cs (K @ u) = K @ rstrip_chars cs u"
proof -
  from assms have "dropWhile (\<lambda>c. c \<in> set cs) (rev K) = rev K"
    by (cases K rule: rev_cases) auto
  then show ?thesis
    by (auto simp: rstrip_chars_def dropWhile_append)
qed

lemma log_prefix_length: "is_log_prefix p \<Longrightarrow> length p = 33"
  by (auto simp: is_log_prefix_def log_prefix_template_def dest: list_all2_lengthD)

lemma log_prefix_last:
  assumes "is_log_prefix p"
  shows "p \<noteq> [] \<and> last p = CHR '' ''"
proof -
  from assms have len: "length p = 33" by (rule log_prefix_length)
  then have ne: "p \<noteq> []" by auto
  from assms have "fits (log_prefix_template ! 32) (p ! 32)"
    unfolding is_log_prefix_def by (rule list_all2_nthD) (simp add: log_prefix_template_def)
  then have "p ! 32 = CHR '' ''"
    by (simp add: log_prefix_template_def fits_def)
  with ne len show ?thesis by (simp add: last_conv_nth)
qed

lemma clean_line_prefixed:
  assumes p: "is_log_prefix p" and l: "plain_line l"
  shows "clean_line (p @ l) = clean_line l"
proof -
  define b where "b = rstrip_chars [newline] l"
  from l have b: "newline \<notin> set b" "\<not> is_log_prefix (take 33 b)"
    by (simp_all add: plain_line_def b_def Let_def)
  from log_prefix_last [OF p] have "rstrip_chars [newline] (p @ l) = p @ b"
    unfolding b_def by (intro rstrip_chars_append_keep) simp_all
  moreover have "strip_log_prefix (p @ b) = b"
    using p log_prefix_length [OF p] dot_star_eol_one_line [OF b(1)]
    by (simp add: strip_log_prefix_def)
  moreover have "strip_log_prefix b = b"
    using b(2) by (simp add: strip_log_prefix_def)
  ultimately show ?thesis
    by (simp add: clean_line_def b_def)
qed

lemma kinds_prefixed:
  assumes "is_log_prefix p" "\<forall>l \<in> set ls. plain_line l"
  shows "kinds (map ((@) p) ls) = kinds ls"
  using assms by (simp add: kinds_def clean_line_prefixed)

text \<open>
  C6, as the code has it: for every sequence of lines none of which begins with a log
  prefix of its own, parsing after putting one log prefix of the form
  \<open><date> <time>,<ms> - INFO - \<close> in front of every line yields the same sequence of entries
  as parsing the lines without it.
\<close>

theorem log_prefix_tolerated:
  assumes "is_log_prefix p" and "\<forall>l \<in> set ls. plain_line l"
  shows "parse_lines (map ((@) p) ls) = parse_lines ls"
  by (simp add: parse_lines_view kinds_prefixed [OF assms])

theorem log_prefix_tolerated_witness:
  "is_log_prefix example_log_prefix
   \<and> list_all plain_line ledger_last_incomplete
   \<and> parse_lines (map ((@) example_log_prefix) ledger_last_incomplete)
       = parse_lines ledger_last_incomplete
   \<and> parse_lines (map ((@) example_log_prefix) ledger_last_incomplete)
       = [\<lparr>citation = Some ''Smith 2020'', title = Some ''First title'', doi = Some ''10.1/x'',
           abstract = Some ''Text.''\<rparr>]"
proof -
  have p: "is_log_prefix example_log_prefix"
    by code_simp
  have l: "list_all plain_line ledger_last_incomplete"
    by code_simp
  then have "\<forall>l \<in> set ledger_last_incomplete. plain_line l"
    by (simp add: list_all_iff)
  from log_prefix_tolerated [OF p this]
  have e: "parse_lines (map ((@) example_log_prefix) ledger_last_incomplete)
           = parse_lines ledger_last_incomplete" .
  have "parse_lines ledger_last_incomplete
        = [\<lparr>citation = Some ''Smith 2020'', title = Some ''First title'', doi = Some ''10.1/x'',
            abstract = Some ''Text.''\<rparr>]"
    by code_simp
  with p l e show ?thesis by simp
qed

text \<open>
  C6 as stated (for every line sequence) fails on a line that already carries a log
  prefix: without the added prefix the parser takes its own prefix off and reads the
  marker; with it, only the added prefix is taken off and the line is no marker.
\<close>

theorem log_prefix_counterexample:
  "is_log_prefix example_log_prefix
   \<and> parse_lines ledger_prefixed_marker
       = [\<lparr>citation = Some ''Smith 2020'', title = None, doi = Some ''10.1/x'',
           abstract = Some ''Text.''\<rparr>]
   \<and> parse_lines (map ((@) example_log_prefix) ledger_prefixed_marker)
       = [\<lparr>citation = None, title = None, doi = Some ''10.1/x'', abstract = Some ''Text.''\<rparr>]
   \<and> parse_lines (map ((@) example_log_prefix) ledger_prefixed_marker)
       \<noteq> parse_lines ledger_prefixed_marker"
  by code_simp

section \<open>The choice of the run mode\<close>

lemma run_mode_parsed:
  "run_mode f = (if parsed_entries f = [] then Discovery else Replay (parsed_entries f))"
  by (cases f)
     (simp_all add: run_mode_def parsed_entries_def parse_abstract_updates_file_def Let_def)

text \<open>
  C1 on the code: a ledger file that exists but holds no entry with both \<open>DOI:\<close> and
  \<open>Abstract:\<close> (an empty file, or markers with titles only) makes
  \<open>parse_abstract_updates_file\<close> return \<open>None\<close>, the value it returns for a missing file, and
  \<open>run\<close> goes on to discovery.
\<close>

theorem existing_ledger_without_entries:
  "parse_abstract_updates_file (Readable []) = None
   \<and> run_mode (Readable []) = Discovery
   \<and> parse_abstract_updates_file (Readable (with_terminators ledger_titles_only)) = None
   \<and> run_mode (Readable (with_terminators ledger_titles_only)) = Discovery
   \<and> run_mode Missing = Discovery"
  by code_simp

section \<open>Properties of the segmenter\<close>

subsection \<open>The loop over the start patterns\<close>

lemma find_abstract_loop_find:
  "find_abstract_loop text ps = find valid_abstract (List.map_filter (candidate text) ps)"
proof (induction ps)
  case Nil
  show ?case by (simp add: List.map_filter_simps)
next
  case (Cons p ps)
  then show ?case
    by (cases "candidate text p") (simp_all add: List.map_filter_simps)
qed

lemma find_abstract_first_valid:
  "find_abstract_in_text text = find valid_abstract (candidates text)"
  by (simp add: find_abstract_in_text_def candidates_def find_abstract_loop_find)

subsection \<open>Cleaning\<close>

lemma plain_spaces_collapse: "plain_spaces (collapse_whitespace s)"
  by (induction s rule: collapse_whitespace.induct) (auto simp: plain_spaces_def)

lemma plain_spaces_dropWhile: "plain_spaces s \<Longrightarrow> plain_spaces (dropWhile P s)"
  by (auto simp: plain_spaces_def dest: set_dropWhileD)

lemma plain_spaces_rev: "plain_spaces (rev s) = plain_spaces s"
  by (simp add: plain_spaces_def)

lemma no_run_Cons: "no_run (c # s) \<longleftrightarrow> (s = [] \<or> \<not> (isspace c \<and> isspace (hd s))) \<and> no_run s"
  by (cases s) auto

lemma no_run_append:
  "no_run (xs @ ys) \<longleftrightarrow>
     no_run xs \<and> no_run ys \<and> (xs = [] \<or> ys = [] \<or> \<not> (isspace (last xs) \<and> isspace (hd ys)))"
proof (induction xs rule: no_run.induct)
  case (1 c d r)
  then show ?case by auto
next
  case (2 c)
  show ?case by (cases ys) auto
next
  case 3
  show ?case by simp
qed

lemma no_run_rev: "no_run (rev s) = no_run s"
proof (induction s)
  case Nil
  show ?case by simp
next
  case (Cons c s)
  then show ?case
    by (auto simp: no_run_append no_run_Cons last_rev)
qed

lemma no_run_dropWhile: "no_run s \<Longrightarrow> no_run (dropWhile P s)"
  by (induction s) (auto simp: no_run_Cons)

lemma hd_collapse:
  "collapse_whitespace s \<noteq> [] \<Longrightarrow> isspace (hd (collapse_whitespace s)) \<longleftrightarrow> isspace (hd s)"
  by (cases s) (auto simp: isspace_def)

lemma collapse_Nil: "collapse_whitespace s = [] \<longleftrightarrow> s = []"
  by (cases s) auto

lemma no_run_collapse: "no_run (collapse_whitespace s)"
proof (induction s rule: collapse_whitespace.induct)
  case 1
  show ?case by simp
next
  case (2 c cs)
  show ?case
  proof (cases "isspace c")
    case True
    let ?r = "dropWhile isspace cs"
    have "?r \<noteq> [] \<Longrightarrow> \<not> isspace (hd ?r)"
      by (metis hd_dropWhile)
    then have "collapse_whitespace ?r \<noteq> [] \<Longrightarrow> \<not> isspace (hd (collapse_whitespace ?r))"
      by (simp add: hd_collapse collapse_Nil)
    with True 2 show ?thesis
      by (auto simp: no_run_Cons)
  next
    case False
    with 2 show ?thesis by (simp add: no_run_Cons)
  qed
qed

lemma tidy_dropWhile: "tidy s \<Longrightarrow> tidy (dropWhile P s)"
  by (simp add: tidy_def plain_spaces_dropWhile no_run_dropWhile)

lemma tidy_rev: "tidy (rev s) = tidy s"
  by (simp add: tidy_def plain_spaces_rev no_run_rev)

lemma tidy_strip: "tidy s \<Longrightarrow> tidy (strip s)"
  by (simp add: strip_def rstrip_def lstrip_def tidy_rev tidy_dropWhile)

lemma tidy_strip_page_number: "tidy s \<Longrightarrow> tidy (strip_page_number s)"
  by (simp add: strip_page_number_def Let_def tidy_rev tidy_dropWhile)

lemma tidy_strip_leading_number: "tidy s \<Longrightarrow> tidy (strip_leading_number s)"
  by (simp add: strip_leading_number_def Let_def tidy_dropWhile)

lemma tidy_clean_abstract: "tidy (clean_abstract text)"
  unfolding clean_abstract_def
  by (intro tidy_strip tidy_strip_leading_number tidy_strip_page_number)
     (simp add: tidy_def plain_spaces_collapse no_run_collapse)

lemma strip_clean_abstract: "strip (clean_abstract text) = clean_abstract text"
  by (simp add: clean_abstract_def strip_idem)

lemma plain_spaces_one_line: "plain_spaces s \<Longrightarrow> one_line s"
  by (auto simp: plain_spaces_def one_line_def isspace_def)

lemma candidate_clean: "candidate text p = Some a \<Longrightarrow> \<exists>t. a = clean_abstract t"
  by (cases "re_search IGNORECASE p text") (auto simp: candidate_def cut_abstract_def)

lemma found_is_candidate:
  assumes "find_abstract_in_text text = Some a"
  shows "valid_abstract a \<and> a \<in> set (candidates text)"
  using assms unfolding find_abstract_first_valid
  by (auto simp: find_Some_iff)

lemma found_is_clean:
  assumes "find_abstract_in_text text = Some a"
  shows "\<exists>t. a = clean_abstract t"
proof -
  from found_is_candidate [OF assms] have "a \<in> set (candidates text)" by simp
  then obtain p where "candidate text p = Some a"
    by (auto simp: candidates_def List.map_filter_def)
  then show ?thesis by (rule candidate_clean)
qed

subsection \<open>The example texts\<close>

lemma candidates_30_words: "candidates text_30_words = [words_30, words_30]"
  by code_simp

lemma words_30_invalid: "word_count words_30 = 30"
  by code_simp

lemma candidates_summary_first:
  "candidates text_summary_first = [''too short'', words_55, ''too short'', words_55]"
  by code_simp

lemma words_55_valid: "word_count words_55 = 55 \<and> word_count ''too short'' = 2"
  by code_simp

lemma found_with_newlines: "find_abstract_in_text text_with_newlines = Some first_second_26"
  by code_simp

text \<open>
  C9: the segmenter returns the candidate of the first start pattern, in the order of
  \<open>ABSTRACT_START_PATTERNS\<close>, whose cleaned candidate has more than 50 and fewer than 1000
  words; a candidate that fails the test makes it go on with the next pattern; when no
  pattern has such a candidate it returns \<open>None\<close>, an ordinary value. A text whose only
  abstract-like span has 30 words yields \<open>None\<close>.
\<close>

theorem segmenter_first_valid_candidate:
  "find_abstract_in_text text = find valid_abstract (candidates text)
   \<and> (find_abstract_in_text text = Some a \<longrightarrow>
        50 < word_count a \<and> word_count a < 1000 \<and> a \<in> set (candidates text))
   \<and> ((\<forall>c \<in> set (candidates text). \<not> (50 < word_count c \<and> word_count c < 1000)) \<longrightarrow>
        find_abstract_in_text text = None)
   \<and> map word_count (candidates text_30_words) = [30, 30]
   \<and> find_abstract_in_text text_30_words = None"
proof (intro conjI impI)
  note eq = find_abstract_first_valid
  show "find_abstract_in_text text = find valid_abstract (candidates text)"
    by (rule eq)
  show "50 < word_count a" "word_count a < 1000" "a \<in> set (candidates text)"
    if "find_abstract_in_text text = Some a"
    using found_is_candidate [OF that] by (simp_all add: valid_abstract_def)
  show "find_abstract_in_text text = None"
    if "\<forall>c \<in> set (candidates text). \<not> (50 < word_count c \<and> word_count c < 1000)"
    using that unfolding eq by (auto simp: find_None_iff valid_abstract_def)
  show "map word_count (candidates text_30_words) = [30, 30]"
    by (simp add: candidates_30_words words_30_invalid)
  show "find_abstract_in_text text_30_words = None"
    unfolding eq by (simp add: candidates_30_words valid_abstract_def words_30_invalid)
qed

theorem segmenter_first_valid_candidate_witness:
  "find_abstract_in_text text_summary_first = Some words_55
   \<and> hd (candidates text_summary_first) = ''too short''
   \<and> 50 < word_count words_55 \<and> word_count words_55 < 1000
   \<and> words_55 \<in> set (candidates text_summary_first)
   \<and> (\<forall>c \<in> set (candidates text_30_words). \<not> (50 < word_count c \<and> word_count c < 1000))
   \<and> find_abstract_in_text text_30_words = None"
proof -
  note t = segmenter_first_valid_candidate [of text_summary_first words_55]
  have f: "find_abstract_in_text text_summary_first = Some words_55"
    using t [THEN conjunct1]
    by (simp add: candidates_summary_first valid_abstract_def words_55_valid)
  have n: "\<forall>c \<in> set (candidates text_30_words). \<not> (50 < word_count c \<and> word_count c < 1000)"
    by (simp add: candidates_30_words words_30_invalid)
  from segmenter_first_valid_candidate [of text_30_words, THEN conjunct2, THEN conjunct2, THEN conjunct1] n
  have "find_abstract_in_text text_30_words = None"
    by blast
  with t f n show ?thesis
    by (simp add: candidates_summary_first)
qed

text \<open>
  C10: \<open>_clean_abstract\<close> turns every run of whitespace, newlines included, into one space,
  so every abstract that the segmenter returns is a single line: it has no newline and no
  carriage return, its only whitespace characters are single spaces, and it has no
  whitespace at either end. These are the conditions under which the ledger carries an
  abstract unchanged.
\<close>

theorem segmenter_single_line:
  "plain_spaces (clean_abstract t) \<and> no_run (clean_abstract t)
   \<and> (find_abstract_in_text text = Some a \<longrightarrow>
        newline \<notin> set a \<and> carriage_return \<notin> set a \<and> plain_spaces a \<and> no_run a
        \<and> strip a = a)"
proof (intro conjI impI)
  show "plain_spaces (clean_abstract t)" "no_run (clean_abstract t)"
    using tidy_clean_abstract [of t] by (simp_all add: tidy_def)
  assume "find_abstract_in_text text = Some a"
  then obtain u where a: "a = clean_abstract u"
    using found_is_clean by blast
  show "plain_spaces a" "no_run a"
    using tidy_clean_abstract [of u] by (simp_all add: tidy_def a)
  then show "newline \<notin> set a" "carriage_return \<notin> set a"
    using plain_spaces_one_line [of a] by (simp_all add: one_line_def)
  show "strip a = a"
    by (simp add: a strip_clean_abstract)
qed

theorem segmenter_single_line_witness:
  "find_abstract_in_text text_with_newlines = Some first_second_26
   \<and> newline \<in> set text_with_newlines
   \<and> newline \<notin> set first_second_26 \<and> carriage_return \<notin> set first_second_26
   \<and> plain_spaces first_second_26 \<and> no_run first_second_26
   \<and> strip first_second_26 = first_second_26"
proof -
  have "newline \<in> set text_with_newlines"
    by (simp add: text_with_newlines_def)
  with segmenter_single_line [of _ text_with_newlines first_second_26] found_with_newlines
  show ?thesis by blast
qed

end
